theory Spec2Isabelle
  imports Main "HOL-Library.AList"
begin

section \<open>Python strings\<close>

text \<open>
  A Python \<^verbatim>\<open>str\<close> is a sequence of Unicode code points, and every operation the
  parsers use (\<^verbatim>\<open>split\<close>, \<^verbatim>\<open>replace\<close>, slicing, the regular expressions) counts code
  points, not bytes. A string is therefore a list of code points, each a natural number.
  The glyphs of the critique format lie outside ASCII and are written by their code point.
\<close>

type_synonym ustr = "nat list"

definition ascii :: "string \<Rightarrow> ustr" where
  "ascii s = map of_char s"

definition NL :: nat where "NL = 10"
definition LBRACKET :: nat where "LBRACKET = 12304"
definition RBRACKET :: nat where "RBRACKET = 12305"
definition COLON :: nat where "COLON = 65306"
definition ARROW :: nat where "ARROW = 8594"

text \<open>\<^verbatim>\<open>"- "\<close>: a hyphen-minus and a space.\<close>

definition DASH :: ustr where "DASH = [45, 32]"

text \<open>
  The marker that opens the rewritten section (U+3010, the katakana and kanji of
  "after rewrite", U+3011) and the marker that opens the change summary.
\<close>

definition REWRITTEN_MARKER :: ustr where
  "REWRITTEN_MARKER = [12304, 12522, 12521, 12452, 12488, 24460, 12305]"

definition CHANGES_MARKER :: ustr where
  "CHANGES_MARKER = [12304, 22793, 26356, 28857, 12305]"

text \<open>The sentence returned in place of a change summary when none was supplied.\<close>

definition NO_SUMMARY :: ustr where
  "NO_SUMMARY = [22793, 26356, 28857, 12398, 12469, 12510, 12522, 12540, 12399, 25552,
                 20379, 12373, 12428, 12390, 12356, 12414, 12379, 12435, 12290]"

subsection \<open>\<^verbatim>\<open>str.startswith\<close>, \<^verbatim>\<open>str.endswith\<close>, \<^verbatim>\<open>in\<close>\<close>

fun startswith :: "ustr \<Rightarrow> ustr \<Rightarrow> bool" where
  "startswith s [] = True"
| "startswith [] (p # ps) = False"
| "startswith (c # cs) (p # ps) = (c = p \<and> startswith cs ps)"

definition endswith :: "ustr \<Rightarrow> ustr \<Rightarrow> bool" where
  "endswith s p = startswith (rev s) (rev p)"

text \<open>\<^verbatim>\<open>sub in s\<close>: \<open>sub\<close> occurs in \<open>s\<close> at some position; the empty string occurs in every string.\<close>

fun contains :: "ustr \<Rightarrow> ustr \<Rightarrow> bool" where
  "contains [] sub = (sub = [])"
| "contains (c # cs) sub = (startswith (c # cs) sub \<or> contains cs sub)"

subsection \<open>\<^verbatim>\<open>str.strip\<close>\<close>

text \<open>
  Without an argument \<^verbatim>\<open>strip\<close> removes the characters for which \<^verbatim>\<open>str.isspace\<close> holds:
  the code points of bidirectional type WS, B or S and of category Zs.
\<close>

definition isspace :: "nat \<Rightarrow> bool" where
  "isspace c = ((9 \<le> c \<and> c \<le> 13) \<or> (28 \<le> c \<and> c \<le> 32) \<or> c = 133 \<or> c = 160
     \<or> c = 5760 \<or> (8192 \<le> c \<and> c \<le> 8202) \<or> c = 8232 \<or> c = 8233 \<or> c = 8239
     \<or> c = 8287 \<or> c = 12288)"

definition lstrip :: "ustr \<Rightarrow> ustr" where
  "lstrip s = dropWhile isspace s"

definition rstrip :: "ustr \<Rightarrow> ustr" where
  "rstrip s = rev (dropWhile isspace (rev s))"

definition strip :: "ustr \<Rightarrow> ustr" where
  "strip s = rstrip (lstrip s)"

subsection \<open>\<^verbatim>\<open>str.split\<close> and \<^verbatim>\<open>str.replace\<close>\<close>

text \<open>
  \<^verbatim>\<open>s.split(sep)\<close> cuts \<open>s\<close> at the occurrences of \<open>sep\<close> found scanning from the left,
  each search starting after the previous occurrence; the result has one more piece than
  there are cuts, so it is never empty. \<open>cur\<close> is the piece being collected. An empty
  separator raises \<^verbatim>\<open>ValueError\<close> in Python; every separator of this program is a
  non-empty literal.
\<close>

function split_from :: "ustr \<Rightarrow> ustr \<Rightarrow> ustr \<Rightarrow> ustr list" where
  "split_from sep cur [] = [cur]"
| "split_from sep cur (c # cs) =
     (if sep \<noteq> [] \<and> startswith (c # cs) sep
      then cur # split_from sep [] (drop (length sep) (c # cs))
      else split_from sep (cur @ [c]) cs)"
  by pat_completeness auto
termination
  by (relation "measure (\<lambda>(sep, cur, s). length s)") auto

definition py_split :: "ustr \<Rightarrow> ustr \<Rightarrow> ustr list" where
  "py_split s sep = split_from sep [] s"

text \<open>
  \<^verbatim>\<open>s.split(sep, 1)\<close> cuts at the first occurrence only: one piece when \<open>sep\<close> does not
  occur, two otherwise.
\<close>

fun split1_from :: "ustr \<Rightarrow> ustr \<Rightarrow> ustr \<Rightarrow> ustr list" where
  "split1_from sep cur [] = [cur]"
| "split1_from sep cur (c # cs) =
     (if sep \<noteq> [] \<and> startswith (c # cs) sep
      then [cur, drop (length sep) (c # cs)]
      else split1_from sep (cur @ [c]) cs)"

definition py_split1 :: "ustr \<Rightarrow> ustr \<Rightarrow> ustr list" where
  "py_split1 s sep = split1_from sep [] s"

text \<open>
  \<^verbatim>\<open>s.replace(old, new)\<close>, called without a count, replaces every occurrence of \<open>old\<close>
  found scanning from the left, each search starting after the previous occurrence.
  For an empty \<open>old\<close> Python puts \<open>new\<close> before every character and at the end.
\<close>

function replace_from :: "ustr \<Rightarrow> ustr \<Rightarrow> ustr \<Rightarrow> ustr" where
  "replace_from old new [] = []"
| "replace_from old new (c # cs) =
     (if old \<noteq> [] \<and> startswith (c # cs) old
      then new @ replace_from old new (drop (length old) (c # cs))
      else c # replace_from old new cs)"
  by pat_completeness auto
termination
  by (relation "measure (\<lambda>(old, new, s). length s)") auto

definition py_replace :: "ustr \<Rightarrow> ustr \<Rightarrow> ustr \<Rightarrow> ustr" where
  "py_replace s old new =
     (if old = [] then new @ concat (map (\<lambda>c. c # new) s) else replace_from old new s)"

section \<open>Regular expressions\<close>

text \<open>
  The three patterns of the program are built from literals, the end anchor and the lazy
  group \<^verbatim>\<open>(.+?)\<close>. Python's matcher backtracks: a lazy group takes one character, tries
  the rest of the pattern, and takes one more character each time the rest fails.
  \<open>lazy_dot_plus k acc s\<close> is that search, with \<open>k\<close> the rest of the pattern applied to
  the text of the group and to the remaining input. Without the DOTALL flag the dot
  matches every character except the line feed.
\<close>

fun lazy_dot_plus :: "(ustr \<Rightarrow> ustr \<Rightarrow> 'a option) \<Rightarrow> ustr \<Rightarrow> ustr \<Rightarrow> 'a option" where
  "lazy_dot_plus k acc [] = None"
| "lazy_dot_plus k acc (c # cs) =
     (if c = NL then None
      else (case k (acc @ [c]) cs of
              Some m \<Rightarrow> Some m
            | None \<Rightarrow> lazy_dot_plus k (acc @ [c]) cs))"

text \<open>\<^verbatim>\<open>$\<close> matches at the end of the input and before a line feed that ends the input.\<close>

definition at_dollar :: "ustr \<Rightarrow> bool" where
  "at_dollar r = (r = [] \<or> r = [NL])"

text \<open>\<^verbatim>\<open>(?:\n|$)\<close>: a line feed, or else the end anchor.\<close>

definition at_nl_or_dollar :: "ustr \<Rightarrow> bool" where
  "at_nl_or_dollar r = (startswith r [NL] \<or> at_dollar r)"

text \<open>
  The end of the issue pattern, \<^verbatim>\<open>(?:\<rightarrow>(.+?))?\<close> followed by the anchor \<open>fin\<close>. The
  optional group is greedy: the matcher first tries to take it, and goes on without it
  (group 3 unset) only when that fails. The result holds groups 1, 2 and 3.
\<close>

definition issue_tail ::
  "(ustr \<Rightarrow> bool) \<Rightarrow> ustr \<Rightarrow> ustr \<Rightarrow> ustr \<Rightarrow> (ustr \<times> ustr \<times> ustr option) option" where
  "issue_tail fin g1 g2 r =
     (case (case r of
              [] \<Rightarrow> None
            | c # r' \<Rightarrow>
                if c = ARROW
                then lazy_dot_plus (\<lambda>g3 r''. if fin r'' then Some (g1, g2, Some g3) else None) [] r'
                else None) of
        Some m \<Rightarrow> Some m
      | None \<Rightarrow> if fin r then Some (g1, g2, None) else None)"

text \<open>
  \<^verbatim>\<open>re.match\<close> of \<^verbatim>\<open>- (.+?)\<colon>(.+?)(?:\<rightarrow>(.+?))?\<close> followed by \<open>fin\<close>, with the full-width
  colon and the arrow of the format; \<^verbatim>\<open>re.match\<close> anchors the pattern at the start of
  the line.
\<close>

definition match_issue ::
  "(ustr \<Rightarrow> bool) \<Rightarrow> ustr \<Rightarrow> (ustr \<times> ustr \<times> ustr option) option" where
  "match_issue fin line =
     (if startswith line DASH
      then lazy_dot_plus
             (\<lambda>g1 r. case r of
                        [] \<Rightarrow> None
                      | c # r' \<Rightarrow>
                          if c = COLON then lazy_dot_plus (issue_tail fin g1) [] r' else None)
             [] (drop 2 line)
      else None)"

text \<open>\<^verbatim>\<open>re.match\<close> of the category pattern, an opening bracket, \<^verbatim>\<open>(.+?)\<close> and a closing bracket; the result is group 1.\<close>

definition match_category :: "ustr \<Rightarrow> ustr option" where
  "match_category line =
     (case line of
        [] \<Rightarrow> None
      | c # r \<Rightarrow>
          if c = LBRACKET
          then lazy_dot_plus
                 (\<lambda>g r'. case r' of [] \<Rightarrow> None | d # _ \<Rightarrow> if d = RBRACKET then Some g else None)
                 [] r
          else None)"

section \<open>Issue records\<close>

text \<open>
  \<^verbatim>\<open>app.py\<close> and \<^verbatim>\<open>utils/reviewer.py\<close> build every finding as a dict literal with the four
  keys below, and \<^verbatim>\<open>scenario_review_tool.py\<close> as a \<^verbatim>\<open>ReviewPoint\<close> dataclass with the
  same four fields; reading a key of such a dict is reading the field.
\<close>

record issue_record =
  category :: ustr
  location :: ustr
  issue :: ustr
  suggestion :: ustr

datatype py_error = IndexError | ValueError

text \<open>
  \<^verbatim>\<open>match.group(3).strip() if match.group(3) else ""\<close>: an unset group is \<^verbatim>\<open>None\<close>, and
  \<^verbatim>\<open>None\<close> and the empty string both count as false.
\<close>

definition suggestion_of :: "ustr option \<Rightarrow> ustr" where
  "suggestion_of g3 = (case g3 of None \<Rightarrow> [] | Some g \<Rightarrow> if g \<noteq> [] then strip g else [])"

definition issue_of_match :: "ustr \<Rightarrow> ustr \<times> ustr \<times> ustr option \<Rightarrow> issue_record" where
  "issue_of_match current_category m =
     (case m of (g1, g2, g3) \<Rightarrow>
        \<lparr>category = current_category, location = strip g1, issue = strip g2,
         suggestion = suggestion_of g3\<rparr>)"

text \<open>\<^verbatim>\<open>line[1:-1]\<close>: the line without its first and its last character.\<close>

definition inner :: "ustr \<Rightarrow> ustr" where
  "inner line = butlast (drop 1 line)"

subsection \<open>\<^verbatim>\<open>parse_review_response\<close> of \<^verbatim>\<open>app.py\<close>\<close>

text \<open>
  The loop body, on the state \<open>(current_category, reviews)\<close>. A non-empty string counts
  as true in \<^verbatim>\<open>and current_category\<close>.
\<close>

definition is_header :: "ustr \<Rightarrow> bool" where
  "is_header line = (startswith line [LBRACKET] \<and> endswith line [RBRACKET])"

definition app_step :: "ustr \<times> issue_record list \<Rightarrow> ustr \<Rightarrow> ustr \<times> issue_record list" where
  "app_step st line =
     (case st of (current_category, reviews) \<Rightarrow>
        if is_header line then (inner line, reviews)
        else if startswith line DASH \<and> current_category \<noteq> [] then
          (case match_issue at_dollar line of
             Some m \<Rightarrow> (current_category, reviews @ [issue_of_match current_category m])
           | None \<Rightarrow> (current_category, reviews))
        else (current_category, reviews))"

definition parse_review_response :: "ustr \<Rightarrow> issue_record list" where
  "parse_review_response response_text =
     snd (foldl app_step ([], []) (py_split response_text [NL]))"

subsection \<open>\<^verbatim>\<open>_parse_review_response\<close> of \<^verbatim>\<open>utils/reviewer.py\<close>\<close>

text \<open>
  The loop body, on the state \<open>(current_category, issues, suggestions)\<close>; a line that
  matches the category pattern ends the iteration (\<^verbatim>\<open>continue\<close>). The overall evaluation,
  which is cut out of the text independently of the loop, is not part of this model.
\<close>

definition reviewer_step ::
  "ustr \<times> issue_record list \<times> ustr list \<Rightarrow> ustr \<Rightarrow> ustr \<times> issue_record list \<times> ustr list" where
  "reviewer_step st line =
     (case st of (current_category, issues, suggestions) \<Rightarrow>
        (case match_category line of
           Some g \<Rightarrow> (g, issues, suggestions)
         | None \<Rightarrow>
             (case match_issue at_nl_or_dollar line of
                Some m \<Rightarrow>
                  if current_category \<noteq> [] then
                    (let r = issue_of_match current_category m
                     in (current_category, issues @ [r],
                         if suggestion r \<noteq> [] then suggestions @ [suggestion r] else suggestions))
                  else (current_category, issues, suggestions)
              | None \<Rightarrow> (current_category, issues, suggestions))))"

definition reviewer_loop :: "ustr \<Rightarrow> ustr \<times> issue_record list \<times> ustr list" where
  "reviewer_loop response_text = foldl reviewer_step ([], [], []) (py_split response_text [NL])"

definition reviewer_parse_review_response :: "ustr \<Rightarrow> issue_record list" where
  "reviewer_parse_review_response response_text = fst (snd (reviewer_loop response_text))"

subsection \<open>\<^verbatim>\<open>_parse_text_response\<close> of \<^verbatim>\<open>scenario_review_tool.py\<close>\<close>

text \<open>
  The loop body, on the state \<open>(current_category, issues)\<close>. The assignment
  \<^verbatim>\<open>issue, suggestion = ....split(..., 1)\<close> unpacks a list of exactly two pieces and raises
  \<^verbatim>\<open>ValueError\<close> on any other.
\<close>

definition text_step ::
  "ustr \<times> issue_record list \<Rightarrow> ustr \<Rightarrow> py_error + (ustr \<times> issue_record list)" where
  "text_step st line =
     (case st of (current_category, issues) \<Rightarrow>
        if is_header line then Inr (inner line, issues)
        else if startswith line DASH then
          (case py_split1 (drop 2 line) [COLON] of
             [loc, issue_and_suggestion] \<Rightarrow>
               if contains issue_and_suggestion [ARROW] then
                 (case py_split1 issue_and_suggestion [ARROW] of
                    [iss, sug] \<Rightarrow>
                      Inr (current_category,
                           issues @ [\<lparr>category = current_category, location = strip loc,
                                      issue = strip iss, suggestion = strip sug\<rparr>])
                  | _ \<Rightarrow> Inl ValueError)
               else
                 Inr (current_category,
                      issues @ [\<lparr>category = current_category, location = strip loc,
                                 issue = strip issue_and_suggestion, suggestion = strip []\<rparr>])
           | _ \<Rightarrow> Inr (current_category, issues))
        else Inr (current_category, issues))"

fun text_loop ::
  "ustr \<times> issue_record list \<Rightarrow> ustr list \<Rightarrow> py_error + (ustr \<times> issue_record list)" where
  "text_loop st [] = Inr st"
| "text_loop st (line # lines) =
     (case text_step st line of Inl e \<Rightarrow> Inl e | Inr st' \<Rightarrow> text_loop st' lines)"

definition parse_text_response :: "ustr \<Rightarrow> py_error + issue_record list" where
  "parse_text_response text =
     (case text_loop ([], []) (py_split text [NL]) of Inl e \<Rightarrow> Inl e | Inr st \<Rightarrow> Inr (snd st))"

section \<open>Highlighter\<close>

definition highlighted :: "ustr \<Rightarrow> ustr" where
  "highlighted loc = ascii ''<span class='' @ [34] @ ascii ''highlighted-text'' @ [34]
                     @ ascii ''>'' @ loc @ ascii ''</span>''"

definition highlight_step :: "ustr \<Rightarrow> issue_record \<Rightarrow> ustr" where
  "highlight_step highlighted_content review =
     (let loc = location review
      in if contains highlighted_content loc
         then py_replace highlighted_content loc (highlighted loc)
         else highlighted_content)"

definition highlight_issues_in_text :: "ustr \<Rightarrow> issue_record list \<Rightarrow> ustr" where
  "highlight_issues_in_text content reviews = foldl highlight_step content reviews"

section \<open>Issue aggregator\<close>

text \<open>
  The summary is a dict from category to count. A Python dict keeps its keys in the order
  of their first insertion, so it is an association list: \<^verbatim>\<open>d.get(k, 0)\<close> is a lookup with
  a default, and \<^verbatim>\<open>d[k] = v\<close> overwrites the entry of \<open>k\<close> where it stands or appends a
  new one. Every record carries its category, so \<^verbatim>\<open>issue.get("category", ...)\<close>
  in \<^verbatim>\<open>utils/reviewer.py\<close> and \<^verbatim>\<open>review['category']\<close> in \<^verbatim>\<open>app.py\<close> both read the field.
\<close>

definition dict_get :: "('k \<times> 'v) list \<Rightarrow> 'k \<Rightarrow> 'v \<Rightarrow> 'v" where
  "dict_get d k dflt = (case map_of d k of None \<Rightarrow> dflt | Some v \<Rightarrow> v)"

definition count_step :: "(ustr \<times> int) list \<Rightarrow> issue_record \<Rightarrow> (ustr \<times> int) list" where
  "count_step summary iss =
     (let cat = category iss in AList.update cat (dict_get summary cat 0 + 1) summary)"

definition extract_issues_summary :: "issue_record list \<Rightarrow> (ustr \<times> int) list" where
  "extract_issues_summary issues = foldl count_step [] issues"

definition category_counts :: "issue_record list \<Rightarrow> (ustr \<times> int) list" where
  "category_counts reviews = foldl count_step [] reviews"

section \<open>Rewrite splitter\<close>

text \<open>
  \<^verbatim>\<open>_parse_rewrite_response\<close> of \<^verbatim>\<open>utils/reviewer.py\<close>. \<^verbatim>\<open>parts[0]\<close> raises \<^verbatim>\<open>IndexError\<close> on an
  empty list; \<^verbatim>\<open>parts[1]\<close> is read only when the list has more than one piece.
\<close>

definition parse_rewrite_response :: "ustr \<Rightarrow> py_error + (ustr \<times> ustr)" where
  "parse_rewrite_response response_text =
     (if contains response_text REWRITTEN_MARKER \<and> contains response_text CHANGES_MARKER then
        (let parts = py_split response_text CHANGES_MARKER
         in case parts of
              [] \<Rightarrow> Inl IndexError
            | p0 # _ \<Rightarrow>
                Inr (strip (py_replace p0 REWRITTEN_MARKER []),
                     if length parts > 1 then strip (parts ! 1) else []))
      else Inr (strip response_text, NO_SUMMARY))"

text \<open>
  The final-rewrite branch of \<^verbatim>\<open>app.py\<close> computes the same two strings when both markers
  are present and shows the raw text otherwise (\<open>None\<close> here).
\<close>

definition tab1_split_rewrite :: "ustr \<Rightarrow> py_error + (ustr \<times> ustr) option" where
  "tab1_split_rewrite result_text =
     (if contains result_text REWRITTEN_MARKER \<and> contains result_text CHANGES_MARKER then
        (let parts = py_split result_text CHANGES_MARKER
         in case parts of
              [] \<Rightarrow> Inl IndexError
            | p0 # _ \<Rightarrow>
                Inr (Some (strip (py_replace p0 REWRITTEN_MARKER []),
                           if length parts > 1 then strip (parts ! 1) else [])))
      else Inr None)"

section \<open>The parts of an issue line\<close>

text \<open>
  How the issue pattern cuts a line, stated on the line itself; it is used to say which
  text a record is made of, and no function of the program computes it. The line is the
  dash marker, \<open>g1\<close>, a colon and \<open>g2\<close>, and then either nothing or an arrow and \<open>g3\<close>.
  \<open>g1\<close> is not empty and ends before the first colon that follows its first character.
  \<open>g2\<close> is not empty; with a suggestion it ends before the first arrow that follows its
  first character, and without one it runs to the end of the line, which then has no arrow
  strictly between the first and the last character of \<open>g2\<close>.
\<close>

definition issue_line_parts :: "ustr \<Rightarrow> ustr \<Rightarrow> ustr \<Rightarrow> ustr option \<Rightarrow> bool" where
  "issue_line_parts line g1 g2 g3 =
     (g1 \<noteq> [] \<and> COLON \<notin> set (tl g1) \<and> g2 \<noteq> [] \<and>
      (case g3 of
         None \<Rightarrow> line = DASH @ g1 @ COLON # g2 \<and> ARROW \<notin> set (tl (butlast g2))
       | Some g \<Rightarrow> g \<noteq> [] \<and> line = DASH @ g1 @ COLON # g2 @ ARROW # g
                    \<and> ARROW \<notin> set (tl g2)))"

section \<open>Plain critiques\<close>

text \<open>
  The shape of a critique that keeps to the format asked of the language model; it is the
  hypothesis under which the three parsers are compared, and no function of the
  program computes it. A plain header is a line of at least three characters from the
  opening bracket to the closing bracket, with no other closing bracket after its second
  character.
\<close>

definition plain_header :: "ustr \<Rightarrow> bool" where
  "plain_header line =
     (3 \<le> length line \<and> hd line = LBRACKET \<and> last line = RBRACKET
      \<and> RBRACKET \<notin> set (drop 2 (butlast line)))"

text \<open>
  A plain issue body (the line without its dash marker) has a non-empty location before
  its first colon and a non-empty text after it; if that text has an arrow, the first one
  has text on both sides.
\<close>

definition plain_issue :: "ustr \<Rightarrow> bool" where
  "plain_issue body =
     (let loc = takeWhile (\<lambda>c. c \<noteq> COLON) body;
          rest = drop 1 (dropWhile (\<lambda>c. c \<noteq> COLON) body);
          iss = takeWhile (\<lambda>c. c \<noteq> ARROW) rest;
          sug = drop 1 (dropWhile (\<lambda>c. c \<noteq> ARROW) rest)
      in loc \<noteq> [] \<and> rest \<noteq> [] \<and> (ARROW \<in> set rest \<longrightarrow> iss \<noteq> [] \<and> sug \<noteq> []))"

text \<open>
  In a plain critique every line that starts with the opening bracket is a plain header,
  and every line that starts with the dash marker and has a colon after it is a plain
  issue line below some header (\<open>active\<close>). All other lines are free.
\<close>

fun plain_lines :: "bool \<Rightarrow> ustr list \<Rightarrow> bool" where
  "plain_lines active [] = True"
| "plain_lines active (line # lines) =
     (if startswith line [LBRACKET] then plain_header line \<and> plain_lines True lines
      else if startswith line DASH \<and> COLON \<in> set (drop 2 line)
        then active \<and> plain_issue (drop 2 line) \<and> plain_lines active lines
      else plain_lines active lines)"

definition plain_critique :: "ustr \<Rightarrow> bool" where
  "plain_critique s = plain_lines False (py_split s [NL])"

section \<open>Facts about the string operations\<close>

lemma startswith_take: "startswith s p \<longleftrightarrow> take (length p) s = p"
  by (induction s p rule: startswith.induct) auto

lemma startswith_append: "startswith (p @ r) p"
  by (simp add: startswith_take)

lemma startswith_iff: "startswith s p \<longleftrightarrow> (\<exists>r. s = p @ r)"
  by (metis append_take_drop_id startswith_take startswith_append)

lemma contains_iff: "contains s sub \<longleftrightarrow> (\<exists>a b. s = a @ sub @ b)"
proof (induction s)
  case Nil
  then show ?case by auto
next
  case (Cons c cs)
  show ?case
  proof
    assume "contains (c # cs) sub"
    then consider "startswith (c # cs) sub" | "contains cs sub" by auto
    then show "\<exists>a b. c # cs = a @ sub @ b"
    proof cases
      case 1
      then obtain r where "c # cs = sub @ r" by (auto simp: startswith_iff)
      then have "c # cs = [] @ sub @ r" by simp
      then show ?thesis by blast
    next
      case 2
      then obtain a b where "cs = a @ sub @ b" using Cons.IH by auto
      then have "c # cs = (c # a) @ sub @ b" by simp
      then show ?thesis by blast
    qed
  next
    assume "\<exists>a b. c # cs = a @ sub @ b"
    then obtain a b where ab: "c # cs = a @ sub @ b" by auto
    show "contains (c # cs) sub"
    proof (cases a)
      case Nil
      then have "startswith (c # cs) sub" using ab startswith_append[of sub b] by simp
      then show ?thesis by simp
    next
      case (Cons x xs)
      then have "cs = xs @ sub @ b" using ab by simp
      then show ?thesis using Cons.IH by auto
    qed
  qed
qed

lemma contains_single: "contains s [c] \<longleftrightarrow> c \<in> set s"
  by (induction s) auto

lemma not_startswith_before:
  assumes "\<not> contains ((c # cs) @ butlast sep) sep"
  shows "\<not> startswith (c # cs @ sep @ post) sep"
proof (cases sep rule: rev_cases)
  case Nil
  then show ?thesis using assms by simp
next
  case (snoc w x)
  show ?thesis
  proof
    assume "startswith (c # cs @ sep @ post) sep"
    then have "take (Suc (length w)) (((c # cs) @ w) @ (x # post)) = w @ [x]"
      using snoc by (simp add: startswith_take)
    moreover have "take (Suc (length w)) (((c # cs) @ w) @ (x # post))
                     = take (Suc (length w)) ((c # cs) @ w)"
      by (simp only: take_append) simp
    ultimately have "startswith ((c # cs) @ w) (w @ [x])"
      by (simp add: startswith_take)
    then show False using assms snoc by simp
  qed
qed

lemma split_from_first:
  "sep \<noteq> [] \<Longrightarrow> \<not> contains (pre @ butlast sep) sep \<Longrightarrow>
   split_from sep cur (pre @ sep @ post) = (cur @ pre) # split_from sep [] post"
proof (induction pre arbitrary: cur)
  case Nil
  then obtain x xs where s: "sep = x # xs" by (cases sep) auto
  have "startswith (x # xs @ post) (x # xs)" using startswith_append[of "x # xs" post] by simp
  then show ?case using s by simp
next
  case (Cons c cs)
  have ns: "\<not> startswith (c # cs @ sep @ post) sep"
    using not_startswith_before Cons.prems(2) by blast
  have "\<not> contains (cs @ butlast sep) sep" using Cons.prems(2) by simp
  then have "split_from sep (cur @ [c]) (cs @ sep @ post) = ((cur @ [c]) @ cs) # split_from sep [] post"
    using Cons.IH Cons.prems(1) by blast
  then show ?case using ns by simp
qed

lemma split_from_none:
  "\<not> contains s sep \<Longrightarrow> split_from sep cur s = [cur @ s]"
  by (induction s arbitrary: cur) auto

lemma split_from_not_Nil: "split_from sep cur s \<noteq> []"
  by (induction sep cur s rule: split_from.induct) auto

lemma replace_from_first:
  "old \<noteq> [] \<Longrightarrow> \<not> contains (pre @ butlast old) old \<Longrightarrow>
   replace_from old new (pre @ old @ post) = pre @ new @ replace_from old new post"
proof (induction pre)
  case Nil
  then obtain x xs where s: "old = x # xs" by (cases old) auto
  have "startswith (x # xs @ post) (x # xs)" using startswith_append[of "x # xs" post] by simp
  then show ?case using s by simp
next
  case (Cons c cs)
  have ns: "\<not> startswith (c # cs @ old @ post) old"
    using not_startswith_before Cons.prems(2) by blast
  have "\<not> contains (cs @ butlast old) old" using Cons.prems(2) by simp
  then show ?case using ns Cons by simp
qed

lemma replace_from_none:
  "\<not> contains s old \<Longrightarrow> replace_from old new s = s"
  by (induction s) auto

lemma split1_from_first:
  "c \<notin> set pre \<Longrightarrow> split1_from [c] cur (pre @ c # post) = [cur @ pre, post]"
  by (induction pre arbitrary: cur) auto

lemma split1_from_none:
  "c \<notin> set s \<Longrightarrow> split1_from [c] cur s = [cur @ s]"
  by (induction s arbitrary: cur) auto

lemma split_from_char_append:
  "split_from [c] cur (a @ c # b) = split_from [c] cur a @ split_from [c] [] b"
  by (induction a arbitrary: cur) auto

section \<open>Facts about the patterns\<close>

lemma lazy_dot_plus_SomeD:
  "lazy_dot_plus k acc s = Some m \<Longrightarrow>
   \<exists>p q. p \<noteq> [] \<and> s = p @ q \<and> NL \<notin> set p \<and> k (acc @ p) q = Some m \<and>
         (\<forall>p' q'. p' \<noteq> [] \<longrightarrow> p' @ q' = s \<longrightarrow> length p' < length p \<longrightarrow> k (acc @ p') q' = None)"
proof (induction s arbitrary: acc)
  case Nil
  then show ?case by simp
next
  case (Cons c cs)
  then have c: "c \<noteq> NL" by (auto split: if_splits)
  show ?case
  proof (cases "k (acc @ [c]) cs")
    case (Some m')
    then have "m' = m" using Cons.prems c by simp
    then have "[c] \<noteq> [] \<and> c # cs = [c] @ cs \<and> NL \<notin> set [c] \<and> k (acc @ [c]) cs = Some m \<and>
         (\<forall>p' q'. p' \<noteq> [] \<longrightarrow> p' @ q' = c # cs \<longrightarrow> length p' < length [c] \<longrightarrow> k (acc @ p') q' = None)"
      using Some c by (auto simp: neq_Nil_conv)
    then show ?thesis by blast
  next
    case None
    then have "lazy_dot_plus k (acc @ [c]) cs = Some m" using Cons.prems c by simp
    from Cons.IH[OF this] obtain p q where pq: "p \<noteq> []" "cs = p @ q" "NL \<notin> set p"
      "k ((acc @ [c]) @ p) q = Some m"
      "\<forall>p' q'. p' \<noteq> [] \<longrightarrow> p' @ q' = cs \<longrightarrow> length p' < length p \<longrightarrow> k ((acc @ [c]) @ p') q' = None"
      by blast
    have min: "k (acc @ p') q' = None"
      if h: "p' \<noteq> []" "p' @ q' = c # cs" "length p' < length (c # p)" for p' q'
    proof -
      obtain t where t: "p' = c # t" "t @ q' = cs" using h by (cases p') auto
      show ?thesis
      proof (cases "t = []")
        case True
        then show ?thesis using t None by simp
      next
        case False
        then have "k ((acc @ [c]) @ t) q' = None" using pq(5) t h(3) by simp
        then show ?thesis using t by simp
      qed
    qed
    have "c # p \<noteq> [] \<and> c # cs = (c # p) @ q \<and> NL \<notin> set (c # p) \<and> k (acc @ (c # p)) q = Some m"
      using pq c by simp
    then show ?thesis using min by blast
  qed
qed

lemma lazy_dot_plus_first:
  "p \<noteq> [] \<Longrightarrow> NL \<notin> set p \<Longrightarrow> k (acc @ p) q = Some m \<Longrightarrow>
   (\<And>p' q'. p' \<noteq> [] \<Longrightarrow> p' @ q' = p @ q \<Longrightarrow> length p' < length p \<Longrightarrow> k (acc @ p') q' = None) \<Longrightarrow>
   lazy_dot_plus k acc (p @ q) = Some m"
proof (induction p arbitrary: acc)
  case Nil
  then show ?case by simp
next
  case (Cons c ps)
  show ?case
  proof (cases "ps = []")
    case True
    then show ?thesis using Cons.prems by simp
  next
    case False
    have "k (acc @ [c]) (ps @ q) = None"
      using Cons.prems(4)[of "[c]" "ps @ q"] False by (simp add: Suc_lessI)
    moreover have "lazy_dot_plus k (acc @ [c]) (ps @ q) = Some m"
    proof (rule Cons.IH[OF False])
      show "NL \<notin> set ps" using Cons.prems(2) by simp
      show "k ((acc @ [c]) @ ps) q = Some m" using Cons.prems(3) by simp
      show "k ((acc @ [c]) @ p') q' = None"
        if h: "p' \<noteq> []" "p' @ q' = ps @ q" "length p' < length ps" for p' q'
        using Cons.prems(4)[of "c # p'" q'] h by simp
    qed
    ultimately show ?thesis using Cons.prems(2) by simp
  qed
qed

lemma lazy_dot_plus_None:
  "(\<And>p q. p \<noteq> [] \<Longrightarrow> p @ q = s \<Longrightarrow> k (acc @ p) q = None) \<Longrightarrow> lazy_dot_plus k acc s = None"
proof (rule ccontr)
  assume a: "\<And>p q. p \<noteq> [] \<Longrightarrow> p @ q = s \<Longrightarrow> k (acc @ p) q = None"
  assume "lazy_dot_plus k acc s \<noteq> None"
  then obtain m where "lazy_dot_plus k acc s = Some m" by auto
  from lazy_dot_plus_SomeD[OF this] obtain p q where "p \<noteq> []" "s = p @ q" "k (acc @ p) q = Some m"
    by blast
  then show False using a[of p q] by simp
qed

lemma match_category_SomeD:
  assumes "match_category line = Some g"
  shows "\<exists>rest. line = LBRACKET # g @ RBRACKET # rest \<and> g \<noteq> [] \<and> NL \<notin> set g \<and> RBRACKET \<notin> set (tl g)"
proof -
  let ?k = "\<lambda>g r'. case r' of [] \<Rightarrow> None | d # _ \<Rightarrow> if d = RBRACKET then Some g else None"
  obtain r where line: "line = LBRACKET # r" and l: "lazy_dot_plus ?k [] r = Some g"
    using assms by (auto simp: match_category_def split: list.splits if_splits)
  from lazy_dot_plus_SomeD[OF l] obtain p q where pq: "p \<noteq> []" "r = p @ q" "NL \<notin> set p"
    "?k ([] @ p) q = Some g"
    "\<forall>p' q'. p' \<noteq> [] \<longrightarrow> p' @ q' = r \<longrightarrow> length p' < length p \<longrightarrow> ?k ([] @ p') q' = None"
    by blast
  from pq(4) obtain rest where q: "q = RBRACKET # rest" and g: "g = p"
    by (auto split: list.splits if_splits)
  have "RBRACKET \<notin> set (tl p)"
  proof
    assume "RBRACKET \<in> set (tl p)"
    then obtain a b where ab: "tl p = a @ RBRACKET # b" by (auto simp: in_set_conv_decomp)
    then have p: "p = (hd p # a) @ RBRACKET # b" using pq(1) by (cases p) auto
    have "length (hd p # a) < length p" by (subst (2) p) simp
    moreover have "(hd p # a) @ (RBRACKET # b @ q) = r" using pq(2) p by (metis append.assoc append_Cons)
    ultimately have "?k ([] @ (hd p # a)) (RBRACKET # b @ q) = None" using pq(5) by blast
    then show False by simp
  qed
  then show ?thesis using line pq q g by simp
qed

lemma match_category_first:
  assumes "g \<noteq> []" "NL \<notin> set g" "RBRACKET \<notin> set (tl g)"
  shows "match_category (LBRACKET # g @ RBRACKET # rest) = Some g"
proof -
  let ?k = "\<lambda>g r'. case r' of [] \<Rightarrow> None | d # _ \<Rightarrow> if d = RBRACKET then Some g else None"
  have "lazy_dot_plus ?k [] (g @ RBRACKET # rest) = Some g"
  proof (rule lazy_dot_plus_first[OF assms(1,2)])
    show "?k ([] @ g) (RBRACKET # rest) = Some g" by simp
    show "?k ([] @ p') q' = None"
      if h: "p' \<noteq> []" "p' @ q' = g @ RBRACKET # rest" "length p' < length g" for p' q'
    proof -
      obtain t where t: "g = p' @ t" "q' = t @ RBRACKET # rest"
        using h(2,3) by (auto simp: append_eq_append_conv2)
      then obtain x t' where x: "t = x # t'" using h(3) by (cases t) auto
      have "x \<in> set (tl g)" using t x h(1) by (cases p') auto
      then have "x \<noteq> RBRACKET" using assms(3) by auto
      then show ?thesis using t x by simp
    qed
  qed
  then show ?thesis by (simp add: match_category_def)
qed

lemma issue_tail_SomeD:
  "issue_tail fin g1 g2 r = Some m \<Longrightarrow>
   fst m = g1 \<and> fst (snd m) = g2 \<and> (\<forall>g. snd (snd m) = Some g \<longrightarrow> g \<noteq> [])"
proof -
  assume a: "issue_tail fin g1 g2 r = Some m"
  let ?k = "\<lambda>g3 r''. if fin r'' then Some (g1, g2, Some g3) else None"
  show ?thesis
  proof (cases "\<exists>r'. r = ARROW # r' \<and> lazy_dot_plus ?k [] r' = Some m")
    case True
    then obtain r' where "lazy_dot_plus ?k [] r' = Some m" by blast
    from lazy_dot_plus_SomeD[OF this] obtain p q where "p \<noteq> []" "?k ([] @ p) q = Some m" by blast
    then show ?thesis by (auto split: if_splits)
  next
    case False
    then have "m = (g1, g2, None)"
      using a by (auto simp: issue_tail_def split: list.splits if_splits option.splits)
    then show ?thesis by simp
  qed
qed

lemma match_issue_SomeD:
  assumes "match_issue fin line = Some m"
  shows "startswith line DASH \<and> fst m \<noteq> [] \<and> fst (snd m) \<noteq> [] \<and>
         (\<exists>a b. line = a @ fst (snd m) @ b) \<and> (\<forall>g. snd (snd m) = Some g \<longrightarrow> g \<noteq> [])"
proof -
  let ?k1 = "\<lambda>g1 r. case r of [] \<Rightarrow> None
                | c # r' \<Rightarrow> if c = COLON then lazy_dot_plus (issue_tail fin g1) [] r' else None"
  have d: "startswith line DASH" and l: "lazy_dot_plus ?k1 [] (drop 2 line) = Some m"
    using assms by (auto simp: match_issue_def split: if_splits)
  from lazy_dot_plus_SomeD[OF l] obtain p q where pq: "p \<noteq> []" "drop 2 line = p @ q"
    "?k1 ([] @ p) q = Some m" by blast
  then obtain r' where q: "q = COLON # r'" and l2: "lazy_dot_plus (issue_tail fin p) [] r' = Some m"
    by (auto split: list.splits if_splits)
  from lazy_dot_plus_SomeD[OF l2] obtain p2 q2 where p2: "p2 \<noteq> []" "r' = p2 @ q2"
    "issue_tail fin p ([] @ p2) q2 = Some m" by blast
  from issue_tail_SomeD[OF p2(3)] have m: "fst m = p" "fst (snd m) = p2"
    "\<forall>g. snd (snd m) = Some g \<longrightarrow> g \<noteq> []" by auto
  have "line = take 2 line @ drop 2 line" by simp
  then have "line = (take 2 line @ p @ [COLON]) @ p2 @ q2" using pq(2) q p2(2) by simp
  then have "\<exists>a b. line = a @ p2 @ b" by blast
  then show ?thesis using d pq(1) p2(1) m by simp
qed

lemma match_issue_no_colon:
  assumes "COLON \<notin> set (drop 2 line)"
  shows "match_issue fin line = None"
proof -
  let ?k1 = "\<lambda>g1 r. case r of [] \<Rightarrow> None
                | c # r' \<Rightarrow> if c = COLON then lazy_dot_plus (issue_tail fin g1) [] r' else None"
  have "lazy_dot_plus ?k1 [] (drop 2 line) = None"
  proof (rule lazy_dot_plus_None)
    fix p q assume "p \<noteq> []" "p @ q = drop 2 line"
    then have "COLON \<notin> set q" using assms by (metis Un_iff set_append)
    then show "?k1 ([] @ p) q = None" by (auto split: list.splits)
  qed
  then show ?thesis by (simp add: match_issue_def)
qed

section \<open>Counts of the issue aggregator\<close>
lemma sum_count_update:
  "sum_list (map snd (AList.update k (dict_get d k 0 + 1) d)) = sum_list (map snd d) + (1::int)"
  by (induction d) (auto simp: dict_get_def)

lemma count_step_sum: "sum_list (map snd (count_step d r)) = sum_list (map snd d) + 1"
  by (simp add: count_step_def Let_def sum_count_update)

lemma count_step_keys: "fst ` set (count_step d r) = insert (category r) (fst ` set d)"
  by (simp add: count_step_def Let_def dom_update)

lemma count_step_distinct: "distinct (map fst d) \<Longrightarrow> distinct (map fst (count_step d r))"
  by (simp add: count_step_def Let_def distinct_update)

lemma foldl_count_sum:
  "sum_list (map snd (foldl count_step d rs)) = sum_list (map snd d) + int (length rs)"
  by (induction rs arbitrary: d) (auto simp: count_step_sum)

lemma foldl_count_keys:
  "fst ` set (foldl count_step d rs) = fst ` set d \<union> category ` set rs"
  by (induction rs arbitrary: d) (auto simp: count_step_keys)

lemma foldl_count_distinct:
  "distinct (map fst d) \<Longrightarrow> distinct (map fst (foldl count_step d rs))"
  by (induction rs arbitrary: d) (auto simp: count_step_distinct)

text \<open>
  C9. For every sequence of issue records the counts of the summary add up to the length
  of the sequence, and its keys are exactly the categories that occur in the sequence,
  each key once. This holds for \<^verbatim>\<open>extract_issues_summary\<close> of \<^verbatim>\<open>utils/reviewer.py\<close> and for
  the \<^verbatim>\<open>category_counts\<close> loop of \<^verbatim>\<open>app.py\<close>.
\<close>

theorem issue_counts_sum_and_keys:
  "sum_list (map snd (extract_issues_summary issues)) = int (length issues)
   \<and> set (map fst (extract_issues_summary issues)) = category ` set issues
   \<and> distinct (map fst (extract_issues_summary issues))
   \<and> sum_list (map snd (category_counts issues)) = int (length issues)
   \<and> set (map fst (category_counts issues)) = category ` set issues
   \<and> distinct (map fst (category_counts issues))"
  by (simp add: extract_issues_summary_def category_counts_def foldl_count_sum foldl_count_keys
      foldl_count_distinct)

section \<open>Results of the rewrite splitter\<close>

lemma py_replace_none: "\<not> contains s old \<Longrightarrow> py_replace s old new = s"
  by (cases "old = []") (auto simp: py_replace_def replace_from_none contains_iff)

lemma py_replace_first:
  "old \<noteq> [] \<Longrightarrow> \<not> contains (pre @ butlast old) old \<Longrightarrow>
   py_replace (pre @ old @ post) old new = pre @ new @ py_replace post old new"
  by (simp add: py_replace_def replace_from_first)

lemma parse_rewrite_total: "\<exists>d c. parse_rewrite_response s = Inr (d, c)"
proof -
  obtain p0 ps where "py_split s CHANGES_MARKER = p0 # ps"
    using split_from_not_Nil[of CHANGES_MARKER "[]" s] by (cases "py_split s CHANGES_MARKER") (auto simp: py_split_def)
  then show ?thesis by (simp add: parse_rewrite_response_def Let_def)
qed

lemma CHANGES_MARKER_not_Nil: "CHANGES_MARKER \<noteq> []"
  by (simp add: CHANGES_MARKER_def)

lemma REWRITTEN_MARKER_not_Nil: "REWRITTEN_MARKER \<noteq> []"
  by (simp add: REWRITTEN_MARKER_def)

lemma parse_rewrite_both:
  assumes "contains s REWRITTEN_MARKER" and "s = pre @ CHANGES_MARKER @ post"
    and "\<not> contains (pre @ butlast CHANGES_MARKER) CHANGES_MARKER"
  shows "parse_rewrite_response s =
           Inr (strip (py_replace pre REWRITTEN_MARKER []), strip (hd (py_split post CHANGES_MARKER)))"
proof -
  have c: "contains s CHANGES_MARKER" using assms(2) contains_iff by blast
  have sp: "py_split s CHANGES_MARKER = pre # py_split post CHANGES_MARKER"
    using split_from_first[OF CHANGES_MARKER_not_Nil assms(3), of "[]" post] assms(2)
    by (simp add: py_split_def)
  obtain q qs where q: "py_split post CHANGES_MARKER = q # qs"
    using split_from_not_Nil[of CHANGES_MARKER "[]" post]
    by (cases "py_split post CHANGES_MARKER") (auto simp: py_split_def)
  show ?thesis using assms(1) c sp q by (simp add: parse_rewrite_response_def Let_def)
qed

lemma tab1_split_rewrite_eq:
  "tab1_split_rewrite s =
     (if contains s REWRITTEN_MARKER \<and> contains s CHANGES_MARKER
      then (case parse_rewrite_response s of Inl e \<Rightarrow> Inl e | Inr r \<Rightarrow> Inr (Some r))
      else Inr None)"
  by (simp add: tab1_split_rewrite_def parse_rewrite_response_def Let_def split: list.splits)

lemma py_split_first:
  "sep \<noteq> [] \<Longrightarrow> \<not> contains (pre @ butlast sep) sep \<Longrightarrow>
   py_split (pre @ sep @ post) sep = pre # py_split post sep"
  using split_from_first[of sep pre "[]" post] by (simp add: py_split_def)

lemma py_split_none: "\<not> contains s sep \<Longrightarrow> py_split s sep = [s]"
  by (simp add: py_split_def split_from_none)

text \<open>
  C8. When at least one of the two markers is absent, \<^verbatim>\<open>_parse_rewrite_response\<close> returns
  the whole input trimmed, with the fixed sentence \<open>NO_SUMMARY\<close> as the change summary.
  On every input it returns a pair of strings and never raises: the index error of
  \<^verbatim>\<open>parts[0]\<close> is unreachable, since \<^verbatim>\<open>split\<close> never returns an empty list.
\<close>

theorem rewrite_fallback_total:
  "(\<not> contains s REWRITTEN_MARKER \<or> \<not> contains s CHANGES_MARKER
      \<longrightarrow> parse_rewrite_response s = Inr (strip s, NO_SUMMARY))
   \<and> (\<exists>document changes. parse_rewrite_response s = Inr (document, changes))"
  using parse_rewrite_total[of s] by (auto simp: parse_rewrite_response_def)

theorem rewrite_fallback_total_witness:
  "\<not> contains (ascii ''hello world'') REWRITTEN_MARKER
   \<and> parse_rewrite_response (ascii ''hello world'') = Inr (ascii ''hello world'', NO_SUMMARY)"
  using rewrite_fallback_total[of "ascii ''hello world''"]
  by (simp add: ascii_def REWRITTEN_MARKER_def strip_def lstrip_def rstrip_def isspace_def)

text \<open>
  C2, as the code has it. Let both markers occur in \<open>s\<close> and let \<open>post\<close> be the text after
  the first occurrence of the changes marker. \<^verbatim>\<open>split\<close> is called without a limit and only
  \<^verbatim>\<open>parts[1]\<close> is used, so the change summary is the trimmed text between the first and the
  second occurrence of the marker; it is the whole of \<open>post\<close>, trimmed, only when the
  marker does not occur again. The final-rewrite branch of \<^verbatim>\<open>app.py\<close> does the same.
\<close>

theorem rewrite_changes_up_to_next_marker:
  assumes "contains s REWRITTEN_MARKER" and "s = pre @ CHANGES_MARKER @ post"
    and "\<not> contains (pre @ butlast CHANGES_MARKER) CHANGES_MARKER"
  shows "(\<not> contains post CHANGES_MARKER \<longrightarrow>
            (\<exists>d. parse_rewrite_response s = Inr (d, strip post)
                \<and> tab1_split_rewrite s = Inr (Some (d, strip post))))
       \<and> (\<forall>mid rest. post = mid @ CHANGES_MARKER @ rest
            \<and> \<not> contains (mid @ butlast CHANGES_MARKER) CHANGES_MARKER \<longrightarrow>
            (\<exists>d. parse_rewrite_response s = Inr (d, strip mid)
                \<and> tab1_split_rewrite s = Inr (Some (d, strip mid))))"
proof -
  have c: "contains s CHANGES_MARKER" using assms(2) contains_iff by blast
  note b = parse_rewrite_both[OF assms]
  show ?thesis
    using b c assms(1)
    by (auto simp: tab1_split_rewrite_eq py_split_none py_split_first CHANGES_MARKER_not_Nil)
qed

lemmas eval_defs = parse_rewrite_response_def tab1_split_rewrite_def py_split_def py_replace_def
  strip_def lstrip_def rstrip_def isspace_def REWRITTEN_MARKER_def CHANGES_MARKER_def
  NO_SUMMARY_def ascii_def

theorem rewrite_changes_up_to_next_marker_witness:
  "contains (REWRITTEN_MARKER @ [65] @ CHANGES_MARKER @ [66]) REWRITTEN_MARKER
   \<and> \<not> contains ((REWRITTEN_MARKER @ [65]) @ butlast CHANGES_MARKER) CHANGES_MARKER
   \<and> \<not> contains [66] CHANGES_MARKER
   \<and> parse_rewrite_response (REWRITTEN_MARKER @ [65] @ CHANGES_MARKER @ [66]) = Inr ([65], [66])
   \<and> contains (REWRITTEN_MARKER @ [65] @ CHANGES_MARKER @ [66] @ CHANGES_MARKER @ [67])
        REWRITTEN_MARKER
   \<and> \<not> contains ([66] @ butlast CHANGES_MARKER) CHANGES_MARKER
   \<and> parse_rewrite_response
        (REWRITTEN_MARKER @ [65] @ CHANGES_MARKER @ [66] @ CHANGES_MARKER @ [67])
       = Inr ([65], [66])"
  using rewrite_changes_up_to_next_marker
          [of "REWRITTEN_MARKER @ [65] @ CHANGES_MARKER @ [66]" "REWRITTEN_MARKER @ [65]" "[66]"]
        rewrite_changes_up_to_next_marker
          [of "REWRITTEN_MARKER @ [65] @ CHANGES_MARKER @ [66] @ CHANGES_MARKER @ [67]"
              "REWRITTEN_MARKER @ [65]" "[66] @ CHANGES_MARKER @ [67]"]
  by (simp add: eval_defs)

text \<open>
  C2 as stated fails when the changes marker is repeated: after the first occurrence
  comes \<open>B\<close>, the marker again and \<open>C\<close>, and the summary returned is \<open>B\<close> alone.
\<close>

theorem rewrite_changes_counterexample:
  "contains (REWRITTEN_MARKER @ [65] @ CHANGES_MARKER @ [66] @ CHANGES_MARKER @ [67])
     REWRITTEN_MARKER
   \<and> contains (REWRITTEN_MARKER @ [65] @ CHANGES_MARKER @ [66] @ CHANGES_MARKER @ [67])
       CHANGES_MARKER
   \<and> REWRITTEN_MARKER @ [65] @ CHANGES_MARKER @ [66] @ CHANGES_MARKER @ [67]
       = (REWRITTEN_MARKER @ [65]) @ CHANGES_MARKER @ ([66] @ CHANGES_MARKER @ [67])
   \<and> \<not> contains ((REWRITTEN_MARKER @ [65]) @ butlast CHANGES_MARKER) CHANGES_MARKER
   \<and> parse_rewrite_response
        (REWRITTEN_MARKER @ [65] @ CHANGES_MARKER @ [66] @ CHANGES_MARKER @ [67])
       = Inr ([65], [66])
   \<and> tab1_split_rewrite
        (REWRITTEN_MARKER @ [65] @ CHANGES_MARKER @ [66] @ CHANGES_MARKER @ [67])
       = Inr (Some ([65], [66]))
   \<and> strip ([66] @ CHANGES_MARKER @ [67]) \<noteq> [66]"
  by (simp add: eval_defs)

text \<open>
  C7, as the code has it. Let both markers occur in \<open>s\<close> and let \<open>pre\<close> be the text before
  the first occurrence of the changes marker. \<^verbatim>\<open>replace\<close> is called without a count, so the
  document is \<open>pre\<close> with every occurrence of the rewritten-section marker removed, found
  scanning from the left, and then trimmed: a text without the marker is unchanged, and
  after a first occurrence is removed the rest of the text is treated the same way.
\<close>

theorem rewrite_document_removes_every_marker:
  assumes "contains s REWRITTEN_MARKER" and "s = pre @ CHANGES_MARKER @ post"
    and "\<not> contains (pre @ butlast CHANGES_MARKER) CHANGES_MARKER"
  shows "(\<exists>c. parse_rewrite_response s = Inr (strip (py_replace pre REWRITTEN_MARKER []), c)
             \<and> tab1_split_rewrite s = Inr (Some (strip (py_replace pre REWRITTEN_MARKER []), c)))
       \<and> (\<forall>t. \<not> contains t REWRITTEN_MARKER \<longrightarrow> py_replace t REWRITTEN_MARKER [] = t)
       \<and> (\<forall>a b. \<not> contains (a @ butlast REWRITTEN_MARKER) REWRITTEN_MARKER \<longrightarrow>
             py_replace (a @ REWRITTEN_MARKER @ b) REWRITTEN_MARKER []
               = a @ py_replace b REWRITTEN_MARKER [])"
proof -
  have c: "contains s CHANGES_MARKER" using assms(2) contains_iff by blast
  show ?thesis
    using parse_rewrite_both[OF assms] c assms(1)
    by (simp add: tab1_split_rewrite_eq py_replace_none py_replace_first REWRITTEN_MARKER_not_Nil)
qed

theorem rewrite_document_removes_every_marker_witness:
  "contains (REWRITTEN_MARKER @ [65] @ REWRITTEN_MARKER @ [66] @ CHANGES_MARKER @ [67])
     REWRITTEN_MARKER
   \<and> \<not> contains ((REWRITTEN_MARKER @ [65] @ REWRITTEN_MARKER @ [66]) @ butlast CHANGES_MARKER)
         CHANGES_MARKER
   \<and> \<not> contains ([] @ butlast REWRITTEN_MARKER) REWRITTEN_MARKER
   \<and> \<not> contains ([65] @ butlast REWRITTEN_MARKER) REWRITTEN_MARKER
   \<and> \<not> contains [66] REWRITTEN_MARKER
   \<and> parse_rewrite_response
        (REWRITTEN_MARKER @ [65] @ REWRITTEN_MARKER @ [66] @ CHANGES_MARKER @ [67])
       = Inr ([65, 66], [67])"
  using rewrite_document_removes_every_marker
          [of "REWRITTEN_MARKER @ [65] @ REWRITTEN_MARKER @ [66] @ CHANGES_MARKER @ [67]"
              "REWRITTEN_MARKER @ [65] @ REWRITTEN_MARKER @ [66]" "[67]"]
  by (simp add: eval_defs)

text \<open>
  C7 as stated fails when the rewritten-section marker is repeated before the changes
  marker: both occurrences are removed, and the document is \<open>AB\<close>.
\<close>

theorem rewrite_document_counterexample:
  "contains (REWRITTEN_MARKER @ [65] @ REWRITTEN_MARKER @ [66] @ CHANGES_MARKER @ [67])
     REWRITTEN_MARKER
   \<and> contains (REWRITTEN_MARKER @ [65] @ REWRITTEN_MARKER @ [66] @ CHANGES_MARKER @ [67])
       CHANGES_MARKER
   \<and> REWRITTEN_MARKER @ [65] @ REWRITTEN_MARKER @ [66] @ CHANGES_MARKER @ [67]
       = (REWRITTEN_MARKER @ [65] @ REWRITTEN_MARKER @ [66]) @ CHANGES_MARKER @ [67]
   \<and> \<not> contains ((REWRITTEN_MARKER @ [65] @ REWRITTEN_MARKER @ [66]) @ butlast CHANGES_MARKER)
         CHANGES_MARKER
   \<and> parse_rewrite_response
        (REWRITTEN_MARKER @ [65] @ REWRITTEN_MARKER @ [66] @ CHANGES_MARKER @ [67])
       = Inr ([65, 66], [67])
   \<and> tab1_split_rewrite
        (REWRITTEN_MARKER @ [65] @ REWRITTEN_MARKER @ [66] @ CHANGES_MARKER @ [67])
       = Inr (Some ([65, 66], [67]))
   \<and> strip ([65] @ REWRITTEN_MARKER @ [66]) \<noteq> [65, 66]"
  by (simp add: eval_defs)

section \<open>Results of the highlighter\<close>

lemma highlight_step_eq: "highlight_step w r = py_replace w (location r) (highlighted (location r))"
  by (simp add: highlight_step_def Let_def py_replace_none)

text \<open>
  C1, as the code has it. \<^verbatim>\<open>highlight_issues_in_text\<close> handles the records in order, each
  on the working copy left by the records before it. A record whose location does not
  occur leaves the copy unchanged. \<^verbatim>\<open>replace\<close> is called without a count, so a record
  whose location occurs has every occurrence wrapped, found scanning from the left: the
  first one is wrapped and the text after it is treated the same way. For an empty
  location the wrapper is put before every character and at the end.
\<close>

theorem highlight_replaces_every_occurrence:
  "highlight_issues_in_text content [] = content
   \<and> highlight_issues_in_text content (reviews @ [r])
       = highlight_step (highlight_issues_in_text content reviews) r
   \<and> (\<not> contains w (location r) \<longrightarrow> highlight_step w r = w)
   \<and> (location r \<noteq> [] \<and> \<not> contains (a @ butlast (location r)) (location r) \<longrightarrow>
        highlight_step (a @ location r @ b) r
          = a @ highlighted (location r) @ highlight_step b r)
   \<and> (location r = [] \<longrightarrow>
        highlight_step w r = highlighted [] @ concat (map (\<lambda>c. c # highlighted []) w))"
  by (simp add: highlight_issues_in_text_def highlight_step_eq py_replace_none py_replace_first)
     (simp add: py_replace_def)

theorem highlight_replaces_every_occurrence_witness:
  "\<not> contains ([] @ butlast [97]) [97]
   \<and> \<not> contains [] [97]
   \<and> highlight_issues_in_text [97, 97]
        ([] @ [\<lparr>category = [67], location = [97], issue = [73], suggestion = []\<rparr>])
       = highlighted [97] @ highlighted [97]"
  using highlight_replaces_every_occurrence
          [of "[97, 97]" "[]" "\<lparr>category = [67], location = [97], issue = [73], suggestion = []\<rparr>"
              "[]" "[]" "[97]"]
        highlight_replaces_every_occurrence
          [of "[97, 97]" "[]" "\<lparr>category = [67], location = [97], issue = [73], suggestion = []\<rparr>"
              "[]" "[]" "[]"]
  by simp

text \<open>
  C1 as stated fails on a content in which the location occurs twice: both occurrences
  are wrapped, not only the first.
\<close>

theorem highlight_first_only_counterexample:
  "contains [97, 97] (location \<lparr>category = [67], location = [97], issue = [73], suggestion = []\<rparr>)
   \<and> highlight_issues_in_text [97, 97]
        [\<lparr>category = [67], location = [97], issue = [73], suggestion = []\<rparr>]
       = highlighted [97] @ highlighted [97]
   \<and> highlight_issues_in_text [97, 97]
        [\<lparr>category = [67], location = [97], issue = [73], suggestion = []\<rparr>]
       \<noteq> highlighted [97] @ [97]"
  by (simp add: highlight_issues_in_text_def highlight_step_def py_replace_def highlighted_def
      ascii_def)

section \<open>Header lines\<close>

lemma is_header_iff: "is_header line \<longleftrightarrow> (\<exists>g. line = LBRACKET # g @ [RBRACKET])"
proof
  assume h: "is_header line"
  then obtain r where r: "line = LBRACKET # r"
    by (cases line) (auto simp: is_header_def)
  have "r \<noteq> [] \<and> last r = RBRACKET"
    using h r by (cases r rule: rev_cases) (auto simp: is_header_def endswith_def LBRACKET_def RBRACKET_def)
  then have "r = butlast r @ [RBRACKET]" by (metis append_butlast_last_id)
  then show "\<exists>g. line = LBRACKET # g @ [RBRACKET]" using r by blast
next
  assume "\<exists>g. line = LBRACKET # g @ [RBRACKET]"
  then show "is_header line" by (auto simp: is_header_def endswith_def)
qed

lemma is_header_hd_last:
  "is_header line \<longleftrightarrow> (line \<noteq> [] \<and> hd line = LBRACKET \<and> last line = RBRACKET)"
proof
  assume "is_header line"
  then show "line \<noteq> [] \<and> hd line = LBRACKET \<and> last line = RBRACKET"
    by (auto simp: is_header_iff)
next
  assume a: "line \<noteq> [] \<and> hd line = LBRACKET \<and> last line = RBRACKET"
  then obtain r where r: "line = LBRACKET # r" by (cases line) auto
  have "r \<noteq> []" using a r by (auto simp: LBRACKET_def RBRACKET_def)
  then have "r = butlast r @ [RBRACKET]" using a r by (metis append_butlast_last_id last_ConsR)
  then show "is_header line" using r is_header_iff by blast
qed

lemma inner_header: "inner (LBRACKET # g @ [RBRACKET]) = g"
  by (simp add: inner_def butlast_append)

lemma header_not_dash: "startswith line [LBRACKET] \<Longrightarrow> \<not> startswith line DASH"
  by (cases line) (auto simp: DASH_def LBRACKET_def)

lemma app_step_header: "is_header line \<Longrightarrow> app_step (c, rs) line = (inner line, rs)"
  by (simp add: app_step_def)

lemma app_step_other:
  "\<not> is_header line \<Longrightarrow>
   app_step (c, rs) line =
     (c, case match_issue at_dollar line of
           Some m \<Rightarrow> if c \<noteq> [] then rs @ [issue_of_match c m] else rs
         | None \<Rightarrow> rs)"
  using match_issue_SomeD[of at_dollar line]
  by (auto simp: app_step_def split: option.splits)

lemma reviewer_step_header:
  "match_category line = Some g \<Longrightarrow> reviewer_step (c, rs, ss) line = (g, rs, ss)"
  by (simp add: reviewer_step_def)

lemma reviewer_step_other:
  "match_category line = None \<Longrightarrow>
   fst (reviewer_step (c, rs, ss) line) = c \<and>
   fst (snd (reviewer_step (c, rs, ss) line)) =
     (case match_issue at_nl_or_dollar line of
        Some m \<Rightarrow> if c \<noteq> [] then rs @ [issue_of_match c m] else rs
      | None \<Rightarrow> rs)"
  by (auto simp: reviewer_step_def Let_def split: option.splits)

text \<open>
  C4, as the code has it. In \<^verbatim>\<open>parse_review_response\<close> of \<^verbatim>\<open>app.py\<close> a line is a header
  exactly when its first character is the opening bracket and its last the closing one;
  a header sets the current category to the text between them and adds no record, and
  any other line leaves the category as it is. \<^verbatim>\<open>_parse_review_response\<close> of
  \<^verbatim>\<open>utils/reviewer.py\<close> matches the pattern of an opening bracket, at least one character
  and a closing bracket at the start of the line: the category is the text up to the
  first closing bracket found from the third character on, whatever follows that bracket,
  so there a line need not end with the closing bracket to be a header.
\<close>

theorem header_line_rule:
  "(is_header line \<longleftrightarrow> line \<noteq> [] \<and> hd line = LBRACKET \<and> last line = RBRACKET)
   \<and> (is_header line \<longrightarrow>
        app_step (c, rs) line = (inner line, rs) \<and> line = LBRACKET # inner line @ [RBRACKET])
   \<and> (\<not> is_header line \<longrightarrow> fst (app_step (c, rs) line) = c)
   \<and> (match_category line = Some g \<longrightarrow>
        reviewer_step (c, rs, ss) line = (g, rs, ss)
        \<and> (\<exists>rest. line = LBRACKET # g @ RBRACKET # rest) \<and> g \<noteq> [] \<and> RBRACKET \<notin> set (tl g))
   \<and> (match_category line = None \<longrightarrow> fst (reviewer_step (c, rs, ss) line) = c)
   \<and> (g \<noteq> [] \<and> NL \<notin> set g \<and> RBRACKET \<notin> set (tl g) \<longrightarrow>
        match_category (LBRACKET # g @ RBRACKET # rest) = Some g)"
proof -
  have 1: "is_header line \<longleftrightarrow> line \<noteq> [] \<and> hd line = LBRACKET \<and> last line = RBRACKET"
    by (rule is_header_hd_last)
  have 2: "is_header line \<longrightarrow>
        app_step (c, rs) line = (inner line, rs) \<and> line = LBRACKET # inner line @ [RBRACKET]"
    using inner_header by (auto simp: app_step_header is_header_iff)
  have 3: "\<not> is_header line \<longrightarrow> fst (app_step (c, rs) line) = c"
    by (simp add: app_step_other)
  have 4: "match_category line = Some g \<longrightarrow>
        reviewer_step (c, rs, ss) line = (g, rs, ss)
        \<and> (\<exists>rest. line = LBRACKET # g @ RBRACKET # rest) \<and> g \<noteq> [] \<and> RBRACKET \<notin> set (tl g)"
    using match_category_SomeD[of line g] by (auto simp: reviewer_step_header)
  have 5: "match_category line = None \<longrightarrow> fst (reviewer_step (c, rs, ss) line) = c"
    by (simp add: reviewer_step_other)
  have 6: "g \<noteq> [] \<and> NL \<notin> set g \<and> RBRACKET \<notin> set (tl g) \<longrightarrow>
        match_category (LBRACKET # g @ RBRACKET # rest) = Some g"
    by (simp add: match_category_first)
  show ?thesis using 1 2 3 4 5 6 by blast
qed

lemmas parse_defs = parse_review_response_def reviewer_parse_review_response_def reviewer_loop_def
  parse_text_response_def py_split_def py_split1_def
  app_step_def reviewer_step_def text_step_def is_header_def endswith_def inner_def
  match_issue_def match_category_def issue_tail_def at_dollar_def at_nl_or_dollar_def
  issue_of_match_def suggestion_of_def strip_def lstrip_def rstrip_def isspace_def
  NL_def LBRACKET_def RBRACKET_def COLON_def ARROW_def DASH_def

theorem header_line_rule_witness:
  "is_header [12304, 65, 12305]
   \<and> app_step ([], []) [12304, 65, 12305] = ([65], [])
   \<and> \<not> is_header [12304, 65]
   \<and> fst (app_step ([66], []) [12304, 65]) = [66]
   \<and> match_category [12304, 65, 12305, 120] = Some [65]
   \<and> reviewer_step ([], [], []) [12304, 65, 12305, 120] = ([65], [], [])
   \<and> match_category [12304, 65] = None
   \<and> fst (reviewer_step ([66], [], []) [12304, 65]) = [66]"
  using header_line_rule[of "[12304, 65, 12305]" "[]" "[]" "[65]" "[]" "[]"]
        header_line_rule[of "[12304, 65]" "[66]" "[]" "[65]" "[]" "[120]"]
        header_line_rule[of "[12304, 65, 12305, 120]" "[]" "[]" "[65]" "[]" "[120]"]
  by (simp add: parse_defs)

text \<open>
  C4 as stated fails in \<^verbatim>\<open>utils/reviewer.py\<close>: a line that starts with the opening bracket
  and ends with \<open>x\<close> sets the category there, and the issue line after it yields a record;
  \<^verbatim>\<open>app.py\<close> yields none.
\<close>

theorem header_line_rule_counterexample:
  "startswith [12304, 65, 12305, 120] [LBRACKET]
   \<and> \<not> endswith [12304, 65, 12305, 120] [RBRACKET]
   \<and> reviewer_step ([], [], []) [12304, 65, 12305, 120] = ([65], [], [])
   \<and> reviewer_parse_review_response [12304, 65, 12305, 120, 10, 45, 32, 108, 65306, 105]
       = [\<lparr>category = [65], location = [108], issue = [105], suggestion = []\<rparr>]
   \<and> parse_review_response [12304, 65, 12305, 120, 10, 45, 32, 108, 65306, 105] = []"
  by (simp add: parse_defs)

section \<open>Records and the current category\<close>

lemma py_split_lines_append:
  "py_split (pre @ NL # rest) [NL] = py_split pre [NL] @ py_split rest [NL]"
  by (simp add: py_split_def split_from_char_append)

lemma app_step_cases:
  obtains (header) "is_header line" "app_step (c, rs) line = (inner line, rs)"
  | (issue) m where "\<not> is_header line" "c \<noteq> []" "match_issue at_dollar line = Some m"
      "app_step (c, rs) line = (c, rs @ [issue_of_match c m])"
  | (skip) "\<not> is_header line" "app_step (c, rs) line = (c, rs)"
proof (cases "is_header line")
  case True
  then show ?thesis using header app_step_header by blast
next
  case False
  show ?thesis
  proof (cases "match_issue at_dollar line")
    case None
    then show ?thesis using False skip by (simp add: app_step_other)
  next
    case (Some m)
    show ?thesis
    proof (cases "c = []")
      case True
      then show ?thesis using False Some skip by (simp add: app_step_other)
    next
      case nonempty: False
      then show ?thesis using False Some issue[of m] by (simp add: app_step_other)
    qed
  qed
qed

lemma reviewer_step_cases:
  obtains (header) g where "match_category line = Some g" "g \<noteq> []"
      "reviewer_step (c, rs, ss) line = (g, rs, ss)"
  | (issue) m ss' where "match_category line = None" "c \<noteq> []"
      "match_issue at_nl_or_dollar line = Some m"
      "reviewer_step (c, rs, ss) line = (c, rs @ [issue_of_match c m], ss')"
  | (skip) "match_category line = None" "reviewer_step (c, rs, ss) line = (c, rs, ss)"
proof (cases "match_category line")
  case (Some g)
  then show ?thesis using header[of g] match_category_SomeD[of line g] reviewer_step_header by blast
next
  case None
  show ?thesis
  proof (cases "match_issue at_nl_or_dollar line")
    case n: None
    then show ?thesis using None skip by (simp add: reviewer_step_def)
  next
    case (Some m)
    show ?thesis
    proof (cases "c = []")
      case True
      then show ?thesis using None Some skip by (simp add: reviewer_step_def)
    next
      case False
      then show ?thesis using None Some issue[of m] by (simp add: reviewer_step_def Let_def)
    qed
  qed
qed

subsection \<open>Records added while no header intervenes\<close>

lemma app_no_header_run:
  "\<forall>l\<in>set ls. \<not> is_header l \<Longrightarrow>
   \<exists>new. foldl app_step (c, rs) ls = (c, rs @ new) \<and> (\<forall>r\<in>set new. category r = c)
         \<and> (c = [] \<longrightarrow> new = [])"
proof (induction ls arbitrary: rs)
  case Nil
  then show ?case by simp
next
  case (Cons l ls)
  then have nh: "\<not> is_header l" and rest: "\<forall>l\<in>set ls. \<not> is_header l" by auto
  show ?case
  proof (cases rule: app_step_cases[where line = l and c = c and rs = rs])
    case header
    then show ?thesis using nh by simp
  next
    case (issue m)
    from Cons.IH[OF rest, of "rs @ [issue_of_match c m]"] obtain new where
      n: "foldl app_step (c, rs @ [issue_of_match c m]) ls = (c, (rs @ [issue_of_match c m]) @ new)"
         "\<forall>r\<in>set new. category r = c" by blast
    have "foldl app_step (c, rs) (l # ls) = (c, rs @ (issue_of_match c m # new))"
      using issue(4) n(1) by simp
    moreover have "\<forall>r\<in>set (issue_of_match c m # new). category r = c"
      using n(2) by (cases m) (simp add: issue_of_match_def)
    ultimately show ?thesis using issue(2) by blast
  next
    case skip
    then show ?thesis using Cons.IH[OF rest, of rs] by simp
  qed
qed

lemma reviewer_no_header_run:
  "\<forall>l\<in>set ls. match_category l = None \<Longrightarrow>
   \<exists>new ss'. foldl reviewer_step (c, rs, ss) ls = (c, rs @ new, ss')
         \<and> (\<forall>r\<in>set new. category r = c) \<and> (c = [] \<longrightarrow> new = [] \<and> ss' = ss)"
proof (induction ls arbitrary: rs ss)
  case Nil
  then show ?case by simp
next
  case (Cons l ls)
  then have nh: "match_category l = None" and rest: "\<forall>l\<in>set ls. match_category l = None" by auto
  show ?case
  proof (cases rule: reviewer_step_cases[where line = l and c = c and rs = rs and ss = ss])
    case (header g)
    then show ?thesis using nh by simp
  next
    case (issue m ss1)
    from Cons.IH[OF rest, of "rs @ [issue_of_match c m]" ss1] obtain new ss' where
      n: "foldl reviewer_step (c, rs @ [issue_of_match c m], ss1) ls
            = (c, (rs @ [issue_of_match c m]) @ new, ss')"
         "\<forall>r\<in>set new. category r = c" by blast
    have "foldl reviewer_step (c, rs, ss) (l # ls) = (c, rs @ (issue_of_match c m # new), ss')"
      using issue(4) n(1) by simp
    moreover have "\<forall>r\<in>set (issue_of_match c m # new). category r = c"
      using n(2) by (cases m) (simp add: issue_of_match_def)
    ultimately show ?thesis using issue(2) by blast
  next
    case skip
    then show ?thesis using Cons.IH[OF rest, of rs ss] by simp
  qed
qed

subsection \<open>Every record comes from an issue line below a header\<close>

lemma issue_of_match_simps:
  "category (issue_of_match c m) = c" "issue (issue_of_match c m) = strip (fst (snd m))"
  by (cases m; simp add: issue_of_match_def)+

lemma app_fold_origin:
  "foldl app_step ([], []) ls = (c, rs) \<Longrightarrow>
   (c \<noteq> [] \<longrightarrow> (\<exists>l\<in>set ls. (is_header l \<and> c = inner l))) \<and>
   (\<forall>r\<in>set rs. category r \<noteq> [] \<and> (\<exists>l\<in>set ls. (is_header l \<and> category r = inner l))
       \<and> (\<exists>g. g \<noteq> [] \<and> (\<exists>l\<in>set ls. \<exists>a b. l = a @ g @ b) \<and> issue r = strip g))"
proof (induction ls arbitrary: c rs rule: rev_induct)
  case Nil
  then show ?case by simp
next
  case (snoc l ls)
  define P where "P = (\<lambda>ls (r::issue_record). category r \<noteq> [] \<and> (\<exists>l\<in>set ls. (is_header l \<and> category r = inner l))
       \<and> (\<exists>g. g \<noteq> [] \<and> (\<exists>l\<in>set ls. \<exists>a b. l = a @ g @ b) \<and> issue r = strip g))"
  define Q where "Q = (\<lambda>ls c. c \<noteq> [] \<longrightarrow> (\<exists>l\<in>set ls. (is_header l \<and> c = inner l)))"
  obtain c0 rs0 where st: "foldl app_step ([], []) ls = (c0, rs0)"
    by (cases "foldl app_step ([], []) ls") 
  from snoc.IH[OF st] have ihQ: "Q ls c0" and ihP: "\<forall>r\<in>set rs0. P ls r"
    unfolding P_def Q_def by blast+
  have step: "app_step (c0, rs0) l = (c, rs)" using snoc.prems st by simp
  have monoQ: "Q (ls @ [l]) x" if "Q ls x" for x
    using that unfolding Q_def by auto
  have monoP: "P (ls @ [l]) r" if "P ls r" for r
  proof -
    from that obtain g where g: "g \<noteq> []" "\<exists>l\<in>set ls. \<exists>a b. l = a @ g @ b" "issue r = strip g"
      unfolding P_def by blast
    from that have c: "category r \<noteq> []" "\<exists>l'\<in>set ls. (is_header l' \<and> category r = inner l')"
      unfolding P_def by blast+
    have "\<exists>l'\<in>set (ls @ [l]). \<exists>a b. l' = a @ g @ b" using g(2) by auto
    moreover have "\<exists>l'\<in>set (ls @ [l]). (is_header l' \<and> category r = inner l')" using c(2) by auto
    ultimately show ?thesis unfolding P_def using c(1) g(1,3) by blast
  qed
  have old: "\<forall>r\<in>set rs0. P (ls @ [l]) r" using ihP monoP by blast
  have "Q (ls @ [l]) c \<and> (\<forall>r\<in>set rs. P (ls @ [l]) r)"
  proof (cases rule: app_step_cases[where line = l and c = c0 and rs = rs0])
    case header
    then have eq: "c = inner l" "rs = rs0" using step by auto
    have "Q (ls @ [l]) c" unfolding Q_def using eq(1) header(1) by auto
    then show ?thesis using eq(2) old by simp
  next
    case (issue m)
    obtain a b where ab: "l = a @ fst (snd m) @ b" and ne: "fst (snd m) \<noteq> []"
      using match_issue_SomeD[OF issue(3)] by blast
    have q: "Q (ls @ [l]) c0" using ihQ monoQ by blast
    then have cat: "\<exists>l'\<in>set (ls @ [l]). (is_header l' \<and> c0 = inner l')" using issue(2) unfolding Q_def by simp
    have "\<exists>l'\<in>set (ls @ [l]). \<exists>a b. l' = a @ fst (snd m) @ b" using ab by auto
    then have "\<exists>g. g \<noteq> [] \<and> (\<exists>l'\<in>set (ls @ [l]). \<exists>a b. l' = a @ g @ b)
            \<and> issue (issue_of_match c0 m) = strip g"
      using ne issue_of_match_simps(2) by blast
    then have new: "P (ls @ [l]) (issue_of_match c0 m)"
      unfolding P_def using cat issue(2) by (simp add: issue_of_match_simps)
    have "c = c0" "rs = rs0 @ [issue_of_match c0 m]" using step issue(4) by auto
    then show ?thesis using old new q by simp
  next
    case skip
    then have "c = c0" "rs = rs0" using step by auto
    then show ?thesis using old ihQ monoQ by simp
  qed
  then show ?case unfolding P_def Q_def by blast
qed

lemma reviewer_fold_origin:
  "foldl reviewer_step ([], [], []) ls = (c, rs, ss) \<Longrightarrow>
   (c \<noteq> [] \<longrightarrow> (\<exists>l\<in>set ls. match_category l = Some c)) \<and>
   (\<forall>r\<in>set rs. category r \<noteq> [] \<and> (\<exists>l\<in>set ls. match_category l = Some (category r))
       \<and> (\<exists>g. g \<noteq> [] \<and> (\<exists>l\<in>set ls. \<exists>a b. l = a @ g @ b) \<and> issue r = strip g))"
proof (induction ls arbitrary: c rs ss rule: rev_induct)
  case Nil
  then show ?case by simp
next
  case (snoc l ls)
  define P where "P = (\<lambda>ls (r::issue_record). category r \<noteq> [] \<and> (\<exists>l\<in>set ls. match_category l = Some (category r))
       \<and> (\<exists>g. g \<noteq> [] \<and> (\<exists>l\<in>set ls. \<exists>a b. l = a @ g @ b) \<and> issue r = strip g))"
  define Q where "Q = (\<lambda>ls c. c \<noteq> [] \<longrightarrow> (\<exists>l\<in>set ls. match_category l = Some c))"
  obtain c0 rs0 ss0 where st: "foldl reviewer_step ([], [], []) ls = (c0, rs0, ss0)"
    by (cases "foldl reviewer_step ([], [], []) ls") auto
  from snoc.IH[OF st] have ihQ: "Q ls c0" and ihP: "\<forall>r\<in>set rs0. P ls r"
    unfolding P_def Q_def by blast+
  have step: "reviewer_step (c0, rs0, ss0) l = (c, rs, ss)" using snoc.prems st by simp
  have monoQ: "Q (ls @ [l]) x" if "Q ls x" for x
    using that unfolding Q_def by auto
  have monoP: "P (ls @ [l]) r" if "P ls r" for r
  proof -
    from that obtain g where g: "g \<noteq> []" "\<exists>l\<in>set ls. \<exists>a b. l = a @ g @ b" "issue r = strip g"
      unfolding P_def by blast
    from that have c: "category r \<noteq> []" "\<exists>l'\<in>set ls. match_category l' = Some (category r)"
      unfolding P_def by blast+
    have "\<exists>l'\<in>set (ls @ [l]). \<exists>a b. l' = a @ g @ b" using g(2) by auto
    moreover have "\<exists>l'\<in>set (ls @ [l]). match_category l' = Some (category r)" using c(2) by auto
    ultimately show ?thesis unfolding P_def using c(1) g(1,3) by blast
  qed
  have old: "\<forall>r\<in>set rs0. P (ls @ [l]) r" using ihP monoP by blast
  have "Q (ls @ [l]) c \<and> (\<forall>r\<in>set rs. P (ls @ [l]) r)"
  proof (cases rule: reviewer_step_cases[where line = l and c = c0 and rs = rs0 and ss = ss0])
    case (header g)
    then have eq: "c = g" "rs = rs0" using step by auto
    have "Q (ls @ [l]) c" unfolding Q_def using eq(1) header(1) by auto
    then show ?thesis using eq(2) old by simp
  next
    case (issue m ss1)
    obtain a b where ab: "l = a @ fst (snd m) @ b" and ne: "fst (snd m) \<noteq> []"
      using match_issue_SomeD[OF issue(3)] by blast
    have q: "Q (ls @ [l]) c0" using ihQ monoQ by blast
    then have cat: "\<exists>l'\<in>set (ls @ [l]). match_category l' = Some c0" using issue(2) unfolding Q_def by simp
    have "\<exists>l'\<in>set (ls @ [l]). \<exists>a b. l' = a @ fst (snd m) @ b" using ab by auto
    then have "\<exists>g. g \<noteq> [] \<and> (\<exists>l'\<in>set (ls @ [l]). \<exists>a b. l' = a @ g @ b)
            \<and> issue (issue_of_match c0 m) = strip g"
      using ne issue_of_match_simps(2) by blast
    then have new: "P (ls @ [l]) (issue_of_match c0 m)"
      unfolding P_def using cat issue(2) by (simp add: issue_of_match_simps)
    have "c = c0" "rs = rs0 @ [issue_of_match c0 m]" using step issue(4) by auto
    then show ?thesis using old new q by simp
  next
    case skip
    then have "c = c0" "rs = rs0" using step by auto
    then show ?thesis using old ihQ monoQ by simp
  qed
  then show ?case unfolding P_def Q_def by blast
qed

lemma strip_eq_Nil_iff: "strip g = [] \<longleftrightarrow> (\<forall>c\<in>set g. isspace c)"
proof
  assume "strip g = []"
  then have a: "\<forall>c\<in>set (dropWhile isspace g). isspace c"
    by (simp add: strip_def lstrip_def rstrip_def dropWhile_eq_Nil_conv)
  show "\<forall>c\<in>set g. isspace c"
  proof (rule ccontr)
    assume "\<not> (\<forall>c\<in>set g. isspace c)"
    then have ne: "dropWhile isspace g \<noteq> []"
      using dropWhile_eq_Nil_conv[of isspace g] by blast
    then have "\<not> isspace (hd (dropWhile isspace g))" by (rule hd_dropWhile)
    moreover have "hd (dropWhile isspace g) \<in> set (dropWhile isspace g)" using ne by simp
    ultimately show False using a by blast
  qed
next
  assume "\<forall>c\<in>set g. isspace c"
  then have d: "dropWhile isspace g = []" using dropWhile_eq_Nil_conv[of isspace g] by blast
  show "strip g = []" unfolding strip_def lstrip_def rstrip_def d by simp
qed

lemma app_parse_origin:
  assumes "r \<in> set (parse_review_response s)"
  shows "category r \<noteq> [] \<and> (\<exists>l\<in>set (py_split s [NL]). is_header l \<and> category r = inner l)
       \<and> (\<exists>g. g \<noteq> [] \<and> (\<exists>l\<in>set (py_split s [NL]). \<exists>a b. l = a @ g @ b) \<and> issue r = strip g)"
proof -
  obtain c rs where st: "foldl app_step ([], []) (py_split s [NL]) = (c, rs)"
    by (cases "foldl app_step ([], []) (py_split s [NL])")
  then have "r \<in> set rs" using assms by (simp add: parse_review_response_def)
  then show ?thesis using app_fold_origin[OF st] by blast
qed

lemma reviewer_parse_origin:
  assumes "r \<in> set (reviewer_parse_review_response s)"
  shows "category r \<noteq> [] \<and> (\<exists>l\<in>set (py_split s [NL]). match_category l = Some (category r))
       \<and> (\<exists>g. g \<noteq> [] \<and> (\<exists>l\<in>set (py_split s [NL]). \<exists>a b. l = a @ g @ b) \<and> issue r = strip g)"
proof -
  obtain c rs ss where st: "foldl reviewer_step ([], [], []) (py_split s [NL]) = (c, rs, ss)"
    by (cases "foldl reviewer_step ([], [], []) (py_split s [NL])") auto
  then have "r \<in> set rs" using assms
    by (simp add: reviewer_parse_review_response_def reviewer_loop_def)
  then show ?thesis using reviewer_fold_origin[OF st] by blast
qed

lemma app_orphans_dropped:
  assumes "\<forall>l\<in>set (py_split pre [NL]). \<not> is_header l"
  shows "parse_review_response (pre @ NL # rest) = parse_review_response rest"
proof -
  from app_no_header_run[OF assms, of "[]" "[]"]
  have "foldl app_step ([], []) (py_split pre [NL]) = ([], [])" by auto
  then show ?thesis by (simp add: parse_review_response_def py_split_lines_append)
qed

lemma reviewer_orphans_dropped:
  assumes "\<forall>l\<in>set (py_split pre [NL]). match_category l = None"
  shows "reviewer_parse_review_response (pre @ NL # rest) = reviewer_parse_review_response rest"
proof -
  from reviewer_no_header_run[OF assms, of "[]" "[]" "[]"]
  have "foldl reviewer_step ([], [], []) (py_split pre [NL]) = ([], [], [])" by auto
  then show ?thesis
    by (simp add: reviewer_parse_review_response_def reviewer_loop_def py_split_lines_append)
qed

text \<open>
  C5, as the code has it. Every record returned by \<^verbatim>\<open>parse_review_response\<close> of \<^verbatim>\<open>app.py\<close>
  has a non-empty category, which is the text inside a header line of the input. Lines
  before the first header yield no record: a text without header lines put in front of
  the input changes nothing. Over any run of lines without a header the category stays
  what it was, every record added carries it, and none is added while it is empty. For
  \<^verbatim>\<open>_parse_review_response\<close> of \<^verbatim>\<open>utils/reviewer.py\<close> the same holds with the lines that
  match its category pattern in place of the header lines; such a line need not end with
  the closing bracket.
\<close>

theorem records_carry_active_category:
  "(\<forall>r\<in>set (parse_review_response s).
      category r \<noteq> [] \<and> (\<exists>l\<in>set (py_split s [NL]). is_header l \<and> category r = inner l))
   \<and> ((\<forall>l\<in>set (py_split pre [NL]). \<not> is_header l) \<longrightarrow>
        parse_review_response (pre @ NL # rest) = parse_review_response rest)
   \<and> ((\<forall>l\<in>set ls. \<not> is_header l) \<longrightarrow>
        (\<exists>new. foldl app_step (c, rs) ls = (c, rs @ new) \<and> (\<forall>r\<in>set new. category r = c)
              \<and> (c = [] \<longrightarrow> new = [])))
   \<and> (\<forall>r\<in>set (reviewer_parse_review_response s).
        category r \<noteq> [] \<and> (\<exists>l\<in>set (py_split s [NL]). match_category l = Some (category r)))
   \<and> ((\<forall>l\<in>set (py_split pre [NL]). match_category l = None) \<longrightarrow>
        reviewer_parse_review_response (pre @ NL # rest) = reviewer_parse_review_response rest)
   \<and> ((\<forall>l\<in>set ls. match_category l = None) \<longrightarrow>
        (\<exists>new ss'. foldl reviewer_step (c, rs, ss) ls = (c, rs @ new, ss')
              \<and> (\<forall>r\<in>set new. category r = c) \<and> (c = [] \<longrightarrow> new = [])))"
proof (intro conjI)
  show "\<forall>r\<in>set (parse_review_response s).
      category r \<noteq> [] \<and> (\<exists>l\<in>set (py_split s [NL]). is_header l \<and> category r = inner l)"
    using app_parse_origin by blast
  show "(\<forall>l\<in>set (py_split pre [NL]). \<not> is_header l) \<longrightarrow>
        parse_review_response (pre @ NL # rest) = parse_review_response rest"
    using app_orphans_dropped by blast
  show "(\<forall>l\<in>set ls. \<not> is_header l) \<longrightarrow>
        (\<exists>new. foldl app_step (c, rs) ls = (c, rs @ new) \<and> (\<forall>r\<in>set new. category r = c)
              \<and> (c = [] \<longrightarrow> new = []))"
    using app_no_header_run by blast
  show "\<forall>r\<in>set (reviewer_parse_review_response s).
        category r \<noteq> [] \<and> (\<exists>l\<in>set (py_split s [NL]). match_category l = Some (category r))"
    using reviewer_parse_origin by blast
  show "(\<forall>l\<in>set (py_split pre [NL]). match_category l = None) \<longrightarrow>
        reviewer_parse_review_response (pre @ NL # rest) = reviewer_parse_review_response rest"
    using reviewer_orphans_dropped by blast
  show "(\<forall>l\<in>set ls. match_category l = None) \<longrightarrow>
        (\<exists>new ss'. foldl reviewer_step (c, rs, ss) ls = (c, rs @ new, ss')
              \<and> (\<forall>r\<in>set new. category r = c) \<and> (c = [] \<longrightarrow> new = []))"
  proof
    assume "\<forall>l\<in>set ls. match_category l = None"
    from reviewer_no_header_run[OF this, of c rs ss] show
      "\<exists>new ss'. foldl reviewer_step (c, rs, ss) ls = (c, rs @ new, ss')
              \<and> (\<forall>r\<in>set new. category r = c) \<and> (c = [] \<longrightarrow> new = [])" by blast
  qed
qed

theorem records_carry_active_category_witness:
  "parse_review_response [12304, 65, 12305, 10, 45, 32, 120, 65306, 121]
     = [\<lparr>category = [65], location = [120], issue = [121], suggestion = []\<rparr>]
   \<and> py_split [12304, 65, 12305, 10, 45, 32, 120, 65306, 121] [NL]
       = [[12304, 65, 12305], [45, 32, 120, 65306, 121]]
   \<and> is_header [12304, 65, 12305] \<and> inner [12304, 65, 12305] = [65]
   \<and> py_split [45, 32, 120, 65306, 121] [NL] = [[45, 32, 120, 65306, 121]]
   \<and> \<not> is_header [45, 32, 120, 65306, 121]
   \<and> parse_review_response
        ([45, 32, 120, 65306, 121] @ NL # [12304, 65, 12305, 10, 45, 32, 120, 65306, 121])
       = [\<lparr>category = [65], location = [120], issue = [121], suggestion = []\<rparr>]
   \<and> foldl app_step ([], []) [[45, 32, 120, 65306, 121]] = ([], [])
   \<and> foldl app_step ([65], []) [[45, 32, 120, 65306, 121]]
       = ([65], [\<lparr>category = [65], location = [120], issue = [121], suggestion = []\<rparr>])
   \<and> reviewer_parse_review_response [12304, 65, 12305, 10, 45, 32, 120, 65306, 121]
       = [\<lparr>category = [65], location = [120], issue = [121], suggestion = []\<rparr>]
   \<and> match_category [12304, 65, 12305] = Some [65]
   \<and> match_category [45, 32, 120, 65306, 121] = None
   \<and> reviewer_parse_review_response
        ([45, 32, 120, 65306, 121] @ NL # [12304, 65, 12305, 10, 45, 32, 120, 65306, 121])
       = [\<lparr>category = [65], location = [120], issue = [121], suggestion = []\<rparr>]
   \<and> foldl reviewer_step ([], [], []) [[45, 32, 120, 65306, 121]] = ([], [], [])"
  using records_carry_active_category
          [of "[12304, 65, 12305, 10, 45, 32, 120, 65306, 121]" "[45, 32, 120, 65306, 121]"
              "[12304, 65, 12305, 10, 45, 32, 120, 65306, 121]" "[[45, 32, 120, 65306, 121]]"
              "[]" "[]" "[]"]
        records_carry_active_category
          [of "[12304, 65, 12305, 10, 45, 32, 120, 65306, 121]" "[45, 32, 120, 65306, 121]"
              "[12304, 65, 12305, 10, 45, 32, 120, 65306, 121]" "[[45, 32, 120, 65306, 121]]"
              "[65]" "[]" "[]"]
  by (simp add: parse_defs)

text \<open>
  C5 as stated fails in \<^verbatim>\<open>utils/reviewer.py\<close>: the first line starts with the opening
  bracket and ends with a space, so no line of the input both starts with the opening
  bracket and ends with the closing one, and yet the issue line yields a record there.
  \<^verbatim>\<open>app.py\<close> yields none.
\<close>

theorem orphan_record_counterexample:
  "py_split [12304, 66, 12305, 32, 10, 45, 32, 112, 65306, 113] [NL]
     = [[12304, 66, 12305, 32], [45, 32, 112, 65306, 113]]
   \<and> startswith [12304, 66, 12305, 32] [LBRACKET]
   \<and> \<not> endswith [12304, 66, 12305, 32] [RBRACKET]
   \<and> \<not> is_header [12304, 66, 12305, 32]
   \<and> \<not> is_header [45, 32, 112, 65306, 113]
   \<and> reviewer_parse_review_response [12304, 66, 12305, 32, 10, 45, 32, 112, 65306, 113]
       = [\<lparr>category = [66], location = [112], issue = [113], suggestion = []\<rparr>]
   \<and> parse_review_response [12304, 66, 12305, 32, 10, 45, 32, 112, 65306, 113] = []"
  by (simp add: parse_defs)

section \<open>The three parsers on plain critiques\<close>

lemma split_from_lines_no_NL:
  "l \<in> set (split_from [NL] cur s) \<Longrightarrow> NL \<notin> set cur \<Longrightarrow> NL \<notin> set l"
proof (induction s arbitrary: cur)
  case Nil
  then show ?case by simp
next
  case (Cons c cs)
  show ?case
  proof (cases "c = NL")
    case True
    then have "l = cur \<or> l \<in> set (split_from [NL] [] cs)" using Cons.prems(1) by simp
    then show ?thesis using Cons.IH[of "[]"] Cons.prems(2) by auto
  next
    case False
    then have "l \<in> set (split_from [NL] (cur @ [c]) cs)" using Cons.prems(1) by simp
    then show ?thesis using Cons.IH[of "cur @ [c]"] Cons.prems(2) False by auto
  qed
qed

lemma py_split_lines_no_NL: "l \<in> set (py_split s [NL]) \<Longrightarrow> NL \<notin> set l"
  using split_from_lines_no_NL[of l "[]" s] by (simp add: py_split_def)

lemma plain_header_decomp:
  assumes "plain_header l"
  shows "\<exists>g. l = LBRACKET # g @ [RBRACKET] \<and> g \<noteq> [] \<and> RBRACKET \<notin> set (tl g)"
proof -
  from assms have len: "3 \<le> length l" and h: "hd l = LBRACKET" and la: "last l = RBRACKET"
    and nr: "RBRACKET \<notin> set (drop 2 (butlast l))" by (auto simp: plain_header_def)
  obtain r where r: "l = LBRACKET # r" using len h by (cases l) auto
  then have rl: "2 \<le> length r" using len by simp
  then have "r \<noteq> []" by auto
  then have rr: "r = butlast r @ [RBRACKET]" using la r by (metis append_butlast_last_id last_ConsR)
  have bne: "butlast r \<noteq> []" using rl by (cases r rule: rev_cases) auto
  have "drop 2 (butlast l) = tl (butlast r)" using r rl by (simp add: drop_Suc)
  then have "RBRACKET \<notin> set (tl (butlast r))" using nr by simp
  then show ?thesis using r rr bne by blast
qed

lemma plain_header_both:
  assumes "plain_header l" "NL \<notin> set l"
  shows "is_header l \<and> match_category l = Some (inner l) \<and> inner l \<noteq> []"
proof -
  from plain_header_decomp[OF assms(1)] obtain g where
    g: "l = LBRACKET # g @ [RBRACKET]" "g \<noteq> []" "RBRACKET \<notin> set (tl g)" by blast
  have "NL \<notin> set g" using assms(2) g(1) by auto
  then have "match_category (LBRACKET # g @ RBRACKET # []) = Some g"
    using match_category_first g(2,3) by blast
  moreover have "inner l = g" using g(1) inner_header by simp
  moreover have "is_header l" using g(1) is_header_iff by blast
  ultimately show ?thesis using g by simp
qed

lemma not_bracket_not_header:
  "\<not> startswith l [LBRACKET] \<Longrightarrow> \<not> is_header l \<and> match_category l = None"
  by (cases l) (auto simp: is_header_def match_category_def)

lemma match_issue_not_dash: "\<not> startswith l DASH \<Longrightarrow> match_issue fin l = None"
  by (simp add: match_issue_def)

lemma dash_line: "startswith l DASH \<Longrightarrow> l = DASH @ drop 2 l"
  by (cases l; cases "tl l") (auto simp: DASH_def)

lemma first_char_decomp:
  "x \<in> set xs \<Longrightarrow>
   xs = takeWhile (\<lambda>c. c \<noteq> x) xs @ x # drop 1 (dropWhile (\<lambda>c. c \<noteq> x) xs)
   \<and> x \<notin> set (takeWhile (\<lambda>c. c \<noteq> x) xs)"
proof -
  assume a: "x \<in> set xs"
  then have ne: "dropWhile (\<lambda>c. c \<noteq> x) xs \<noteq> []" by (simp add: dropWhile_eq_Nil_conv)
  then have "hd (dropWhile (\<lambda>c. c \<noteq> x) xs) = x" using hd_dropWhile[OF ne] by simp
  then have "dropWhile (\<lambda>c. c \<noteq> x) xs = x # drop 1 (dropWhile (\<lambda>c. c \<noteq> x) xs)"
    using ne by (cases "dropWhile (\<lambda>c. c \<noteq> x) xs") auto
  then have "xs = takeWhile (\<lambda>c. c \<noteq> x) xs @ x # drop 1 (dropWhile (\<lambda>c. c \<noteq> x) xs)"
    by (metis takeWhile_dropWhile_id)
  moreover have "x \<notin> set (takeWhile (\<lambda>c. c \<noteq> x) xs)" using set_takeWhileD by fastforce
  ultimately show ?thesis by blast
qed

lemma plain_issue_decomp:
  assumes "plain_issue body" "COLON \<in> set body"
  shows "\<exists>loc rest. body = loc @ COLON # rest \<and> loc \<noteq> [] \<and> COLON \<notin> set loc \<and> rest \<noteq> []
           \<and> (ARROW \<notin> set rest
               \<or> (\<exists>iss sug. rest = iss @ ARROW # sug \<and> iss \<noteq> [] \<and> ARROW \<notin> set iss \<and> sug \<noteq> []))"
proof -
  define loc where "loc = takeWhile (\<lambda>c. c \<noteq> COLON) body"
  define rest where "rest = drop 1 (dropWhile (\<lambda>c. c \<noteq> COLON) body)"
  define iss where "iss = takeWhile (\<lambda>c. c \<noteq> ARROW) rest"
  define sug where "sug = drop 1 (dropWhile (\<lambda>c. c \<noteq> ARROW) rest)"
  have p: "loc \<noteq> []" "rest \<noteq> []" "ARROW \<in> set rest \<longrightarrow> iss \<noteq> [] \<and> sug \<noteq> []"
    using assms(1) unfolding plain_issue_def Let_def loc_def rest_def iss_def sug_def by auto
  have b: "body = loc @ COLON # rest" "COLON \<notin> set loc"
    using first_char_decomp[OF assms(2)] unfolding loc_def rest_def by auto
  have "ARROW \<notin> set rest \<or> (rest = iss @ ARROW # sug \<and> iss \<noteq> [] \<and> ARROW \<notin> set iss \<and> sug \<noteq> [])"
  proof (cases "ARROW \<in> set rest")
    case True
    then show ?thesis using first_char_decomp[OF True] p(3) unfolding iss_def sug_def by auto
  next
    case False
    then show ?thesis by simp
  qed
  then show ?thesis using b p(1,2) by blast
qed

lemma shorter_split:
  "p' @ q' = p @ q \<Longrightarrow> length p' < length p \<Longrightarrow> \<exists>x t. p = p' @ x # t \<and> q' = x # t @ q"
proof -
  assume a: "p' @ q' = p @ q" "length p' < length p"
  then obtain u where u: "p = p' @ u" "q' = u @ q"
    by (auto simp: append_eq_append_conv2)
  then have "u \<noteq> []" using a(2) by auto
  then obtain x t where "u = x # t" by (cases u) auto
  then show ?thesis using u by auto
qed

lemma lazy_until_end:
  assumes fin: "fin []" "\<And>r. r \<noteq> [] \<Longrightarrow> NL \<notin> set r \<Longrightarrow> \<not> fin r"
    and "sug \<noteq> []" "NL \<notin> set sug"
  shows "lazy_dot_plus (\<lambda>g3 r''. if fin r'' then Some (f g3) else None) [] sug = Some (f sug)"
proof -
  let ?k = "\<lambda>g3 r''. if fin r'' then Some (f g3) else None"
  have "lazy_dot_plus ?k [] (sug @ []) = Some (f sug)"
  proof (rule lazy_dot_plus_first[OF assms(3,4)])
    show "?k ([] @ sug) [] = Some (f sug)" using fin(1) by simp
    show "?k ([] @ p') q' = None"
      if h: "p' \<noteq> []" "p' @ q' = sug @ []" "length p' < length sug" for p' q'
    proof -
      from shorter_split[OF h(2,3)] obtain x t where xt: "sug = p' @ x # t" "q' = x # t @ []"
        by blast
      then have "q' \<noteq> []" "NL \<notin> set q'" using assms(4) by auto
      then have "\<not> fin q'" using fin(2) by blast
      then show ?thesis by simp
    qed
  qed
  then show ?thesis by simp
qed

lemma issue_tail_no_arrow_end:
  assumes "fin []"
  shows "issue_tail fin g1 g2 [] = Some (g1, g2, None)"
  using assms by (simp add: issue_tail_def)

lemma issue_tail_mid:
  assumes fin: "\<And>r. r \<noteq> [] \<Longrightarrow> NL \<notin> set r \<Longrightarrow> \<not> fin r"
    and "x \<noteq> ARROW" "NL \<notin> set (x # t)"
  shows "issue_tail fin g1 g2 (x # t) = None"
proof -
  have "\<not> fin (x # t)" using fin[of "x # t"] assms(3) by blast
  then show ?thesis using assms(2) by (simp add: issue_tail_def)
qed

lemma issue_tail_arrow:
  assumes fin: "fin []" "\<And>r. r \<noteq> [] \<Longrightarrow> NL \<notin> set r \<Longrightarrow> \<not> fin r"
    and "sug \<noteq> []" "NL \<notin> set sug"
  shows "issue_tail fin g1 g2 (ARROW # sug) = Some (g1, g2, Some sug)"
  using lazy_until_end[where fin = fin and f = "\<lambda>g3. (g1, g2, Some g3)", OF fin assms(3,4)]
  by (simp add: issue_tail_def)

lemma tail_search_no_arrow:
  assumes fin: "fin []" "\<And>r. r \<noteq> [] \<Longrightarrow> NL \<notin> set r \<Longrightarrow> \<not> fin r"
    and "rest \<noteq> []" "NL \<notin> set rest" "ARROW \<notin> set rest"
  shows "lazy_dot_plus (issue_tail fin loc) [] rest = Some (loc, rest, None)"
proof -
  have "lazy_dot_plus (issue_tail fin loc) [] (rest @ []) = Some (loc, rest, None)"
  proof (rule lazy_dot_plus_first[OF assms(3,4)])
    show "issue_tail fin loc ([] @ rest) [] = Some (loc, rest, None)"
      using issue_tail_no_arrow_end[where fin = fin, OF fin(1)] by simp
    show "issue_tail fin loc ([] @ p') q' = None"
      if h: "p' \<noteq> []" "p' @ q' = rest @ []" "length p' < length rest" for p' q'
    proof -
      from shorter_split[OF h(2,3)] obtain x t where xt: "rest = p' @ x # t" "q' = x # t @ []"
        by blast
      then have "x \<noteq> ARROW" "NL \<notin> set (x # t)" using assms(4,5) by auto
      then show ?thesis using issue_tail_mid[where fin = fin, OF fin(2)] xt(2) by simp
    qed
  qed
  then show ?thesis by simp
qed

lemma tail_search_arrow:
  assumes fin: "fin []" "\<And>r. r \<noteq> [] \<Longrightarrow> NL \<notin> set r \<Longrightarrow> \<not> fin r"
    and "iss \<noteq> []" "ARROW \<notin> set iss" "sug \<noteq> []" "NL \<notin> set (iss @ ARROW # sug)"
  shows "lazy_dot_plus (issue_tail fin loc) [] (iss @ ARROW # sug) = Some (loc, iss, Some sug)"
proof (rule lazy_dot_plus_first[OF assms(3)])
  show "NL \<notin> set iss" using assms(6) by simp
  have "NL \<notin> set sug" using assms(6) by simp
  then show "issue_tail fin loc ([] @ iss) (ARROW # sug) = Some (loc, iss, Some sug)"
    using issue_tail_arrow[where fin = fin, OF fin assms(5)] by simp
  show "issue_tail fin loc ([] @ p') q' = None"
    if h: "p' \<noteq> []" "p' @ q' = iss @ ARROW # sug" "length p' < length iss" for p' q'
  proof -
    from shorter_split[OF h(2,3)] obtain x t where xt: "iss = p' @ x # t" "q' = x # t @ ARROW # sug"
      by blast
    then have "x \<noteq> ARROW" using assms(4) by auto
    moreover have "NL \<notin> set (x # t @ ARROW # sug)" using assms(6) xt(1) by auto
    ultimately show ?thesis using issue_tail_mid[where fin = fin, OF fin(2)] xt(2) by simp
  qed
qed

lemma match_issue_found:
  assumes "loc \<noteq> []" "COLON \<notin> set loc" "NL \<notin> set loc"
    and "lazy_dot_plus (issue_tail fin loc) [] rest = Some m"
  shows "match_issue fin (DASH @ loc @ COLON # rest) = Some m"
proof -
  let ?k1 = "\<lambda>g1 r. case r of [] \<Rightarrow> None
                | c # r' \<Rightarrow> if c = COLON then lazy_dot_plus (issue_tail fin g1) [] r' else None"
  have "lazy_dot_plus ?k1 [] (loc @ COLON # rest) = Some m"
  proof (rule lazy_dot_plus_first[OF assms(1,3)])
    show "?k1 ([] @ loc) (COLON # rest) = Some m" using assms(4) by simp
    show "?k1 ([] @ p') q' = None"
      if h: "p' \<noteq> []" "p' @ q' = loc @ COLON # rest" "length p' < length loc" for p' q'
    proof -
      from shorter_split[OF h(2,3)] obtain x t where xt: "loc = p' @ x # t" "q' = x # t @ COLON # rest"
        by blast
      then have "x \<noteq> COLON" using assms(2) by auto
      then show ?thesis using xt(2) by simp
    qed
  qed
  then show ?thesis by (simp add: match_issue_def DASH_def)
qed

lemma fin_at_dollar: "at_dollar []" "r \<noteq> [] \<Longrightarrow> NL \<notin> set r \<Longrightarrow> \<not> at_dollar r"
  by (auto simp: at_dollar_def)

lemma fin_at_nl_or_dollar:
  "at_nl_or_dollar []" "r \<noteq> [] \<Longrightarrow> NL \<notin> set r \<Longrightarrow> \<not> at_nl_or_dollar r"
  by (cases r; auto simp: at_nl_or_dollar_def at_dollar_def)+

lemma strip_Nil: "strip [] = []"
  by (simp add: strip_def lstrip_def rstrip_def)

lemma plain_issue_line:
  assumes "startswith l DASH" "COLON \<in> set (drop 2 l)" "plain_issue (drop 2 l)" "NL \<notin> set l"
  shows "\<exists>m. match_issue at_dollar l = Some m \<and> match_issue at_nl_or_dollar l = Some m
           \<and> text_step (c, rs) l = Inr (c, rs @ [issue_of_match c m])"
proof -
  from plain_issue_decomp[OF assms(3,2)] obtain loc rest where
    d: "drop 2 l = loc @ COLON # rest" "loc \<noteq> []" "COLON \<notin> set loc" "rest \<noteq> []"
       "ARROW \<notin> set rest
        \<or> (\<exists>iss sug. rest = iss @ ARROW # sug \<and> iss \<noteq> [] \<and> ARROW \<notin> set iss \<and> sug \<noteq> [])"
    by blast
  have l: "l = DASH @ loc @ COLON # rest" using dash_line[OF assms(1)] d(1) by simp
  have nl: "NL \<notin> set loc" "NL \<notin> set rest" using assms(4) l by auto
  have nh: "\<not> is_header l" using assms(1) header_not_dash by (auto simp: is_header_def)
  have sp: "py_split1 (drop 2 l) [COLON] = [loc, rest]"
    using split1_from_first[OF d(3), of "[]" rest] d(1) by (simp add: py_split1_def)
  from d(5) show ?thesis
  proof
    assume na: "ARROW \<notin> set rest"
    have a: "match_issue at_dollar l = Some (loc, rest, None)"
      using match_issue_found[OF d(2,3) nl(1) tail_search_no_arrow[where fin = at_dollar, OF fin_at_dollar d(4) nl(2) na]] l
      by simp
    have b: "match_issue at_nl_or_dollar l = Some (loc, rest, None)"
      using match_issue_found[OF d(2,3) nl(1)
              tail_search_no_arrow[where fin = at_nl_or_dollar, OF fin_at_nl_or_dollar d(4) nl(2) na]] l
      by simp
    have "text_step (c, rs) l = Inr (c, rs @ [issue_of_match c (loc, rest, None)])"
      using nh assms(1) sp na
      by (simp add: text_step_def contains_single issue_of_match_def suggestion_of_def strip_Nil)
    then show ?thesis using a b by simp
  next
    assume "\<exists>iss sug. rest = iss @ ARROW # sug \<and> iss \<noteq> [] \<and> ARROW \<notin> set iss \<and> sug \<noteq> []"
    then obtain iss sug where r: "rest = iss @ ARROW # sug" "iss \<noteq> []" "ARROW \<notin> set iss" "sug \<noteq> []"
      by blast
    have nlr: "NL \<notin> set (iss @ ARROW # sug)" using nl(2) r(1) by simp
    have a: "match_issue at_dollar l = Some (loc, iss, Some sug)"
      using match_issue_found[OF d(2,3) nl(1)
              tail_search_arrow[where fin = at_dollar, OF fin_at_dollar r(2,3,4) nlr]] l r(1)
      by simp
    have b: "match_issue at_nl_or_dollar l = Some (loc, iss, Some sug)"
      using match_issue_found[OF d(2,3) nl(1)
              tail_search_arrow[where fin = at_nl_or_dollar, OF fin_at_nl_or_dollar r(2,3,4) nlr]] l r(1)
      by simp
    have sp2: "py_split1 rest [ARROW] = [iss, sug]"
      using split1_from_first[OF r(3), of "[]" sug] r(1) by (simp add: py_split1_def)
    have "text_step (c, rs) l = Inr (c, rs @ [issue_of_match c (loc, iss, Some sug)])"
      using nh assms(1) sp sp2 r(1,4)
      by (simp add: text_step_def contains_single issue_of_match_def suggestion_of_def)
    then show ?thesis using a b by simp
  qed
qed

lemma text_step_header: "is_header l \<Longrightarrow> text_step (c, rs) l = Inr (inner l, rs)"
  by (simp add: text_step_def)

lemma text_step_no_colon:
  assumes "\<not> is_header l" "startswith l DASH \<longrightarrow> COLON \<notin> set (drop 2 l)"
  shows "text_step (c, rs) l = Inr (c, rs)"
proof (cases "startswith l DASH")
  case True
  then have "py_split1 (drop 2 l) [COLON] = [drop 2 l]"
    using assms(2) split1_from_none[of COLON "drop 2 l" "[]"] by (simp add: py_split1_def)
  then show ?thesis using assms(1) True by (simp add: text_step_def)
next
  case False
  then show ?thesis using assms(1) by (simp add: text_step_def)
qed

lemma match_issue_none:
  assumes "startswith l DASH \<longrightarrow> COLON \<notin> set (drop 2 l)"
  shows "match_issue fin l = None"
  using assms match_issue_no_colon match_issue_not_dash by blast

lemma plain_step:
  assumes "NL \<notin> set l" "active \<longrightarrow> c \<noteq> []" "plain_lines active (l # ls)"
  shows "\<exists>c' rs' ss' active'.
           app_step (c, rs) l = (c', rs') \<and> reviewer_step (c, rs, ss) l = (c', rs', ss')
           \<and> text_step (c, rs) l = Inr (c', rs') \<and> (active' \<longrightarrow> c' \<noteq> [])
           \<and> plain_lines active' ls"
proof (cases "startswith l [LBRACKET]")
  case True
  then have ph: "plain_header l" and pl: "plain_lines True ls" using assms(3) by auto
  from plain_header_both[OF ph assms(1)] have
    h: "is_header l" "match_category l = Some (inner l)" "inner l \<noteq> []" by auto
  have "app_step (c, rs) l = (inner l, rs)" using h(1) by (rule app_step_header)
  moreover have "reviewer_step (c, rs, ss) l = (inner l, rs, ss)"
    using h(2) by (rule reviewer_step_header)
  moreover have "text_step (c, rs) l = Inr (inner l, rs)" using h(1) by (rule text_step_header)
  ultimately show ?thesis using h(3) pl by blast
next
  case False
  from not_bracket_not_header[OF False] have nh: "\<not> is_header l" "match_category l = None"
    by auto
  show ?thesis
  proof (cases "startswith l DASH \<and> COLON \<in> set (drop 2 l)")
    case True
    then have a: "active" and pi: "plain_issue (drop 2 l)" and pl: "plain_lines active ls"
      using assms(3) False by auto
    have cne: "c \<noteq> []" using a assms(2) by simp
    from plain_issue_line[OF _ _ pi assms(1), of c rs] True obtain m where
      m: "match_issue at_dollar l = Some m" "match_issue at_nl_or_dollar l = Some m"
         "text_step (c, rs) l = Inr (c, rs @ [issue_of_match c m])" by blast
    have "app_step (c, rs) l = (c, rs @ [issue_of_match c m])"
      using nh(1) m(1) cne by (simp add: app_step_other)
    moreover have "\<exists>ss'. reviewer_step (c, rs, ss) l = (c, rs @ [issue_of_match c m], ss')"
      using nh(2) m(2) cne by (simp add: reviewer_step_def Let_def)
    ultimately show ?thesis using m(3) pl assms(2) by blast
  next
    case nc: False
    then have pl: "plain_lines active ls" using assms(3) False by auto
    have imp: "startswith l DASH \<longrightarrow> COLON \<notin> set (drop 2 l)" using nc by blast
    have "app_step (c, rs) l = (c, rs)"
      using nh(1) match_issue_none[OF imp, of at_dollar] by (simp add: app_step_other)
    moreover have "reviewer_step (c, rs, ss) l = (c, rs, ss)"
      using nh(2) match_issue_none[OF imp, of at_nl_or_dollar] by (simp add: reviewer_step_def)
    moreover have "text_step (c, rs) l = Inr (c, rs)" using text_step_no_colon[OF nh(1) imp] .
    ultimately show ?thesis using pl assms(2) by blast
  qed
qed

lemma plain_lines_agree:
  assumes "\<forall>l\<in>set ls. NL \<notin> set l" "active \<longrightarrow> c \<noteq> []" "plain_lines active ls"
  shows "\<exists>c' rs' ss'. foldl app_step (c, rs) ls = (c', rs')
           \<and> foldl reviewer_step (c, rs, ss) ls = (c', rs', ss')
           \<and> text_loop (c, rs) ls = Inr (c', rs')"
  using assms
proof (induction ls arbitrary: active c rs ss)
  case Nil
  then show ?case by simp
next
  case (Cons l ls)
  have nl: "NL \<notin> set l" and nls: "\<forall>l\<in>set ls. NL \<notin> set l" using Cons.prems(1) by auto
  from plain_step[OF nl Cons.prems(2,3), of rs ss] obtain c1 rs1 ss1 active1 where
    s: "app_step (c, rs) l = (c1, rs1)" "reviewer_step (c, rs, ss) l = (c1, rs1, ss1)"
       "text_step (c, rs) l = Inr (c1, rs1)" "active1 \<longrightarrow> c1 \<noteq> []" "plain_lines active1 ls"
    by blast
  from Cons.IH[OF nls s(4,5), of rs1 ss1] obtain c' rs' ss' where
    "foldl app_step (c1, rs1) ls = (c', rs')"
    "foldl reviewer_step (c1, rs1, ss1) ls = (c', rs', ss')"
    "text_loop (c1, rs1) ls = Inr (c', rs')" by blast
  then show ?case using s(1,2,3) by simp
qed

text \<open>
  C10, as the code has it. The three parsers return the same records on every plain
  input: each line that starts with the opening bracket is a plain header, and each line
  that starts with the dash marker and has a colon after it comes after a header and is a
  plain issue line. On such an input \<^verbatim>\<open>_parse_text_response\<close> does not raise.
\<close>

theorem three_parsers_agree_on_plain_input:
  assumes "plain_critique s"
  shows "reviewer_parse_review_response s = parse_review_response s
       \<and> parse_text_response s = Inr (parse_review_response s)"
proof -
  have nl: "\<forall>l\<in>set (py_split s [NL]). NL \<notin> set l" using py_split_lines_no_NL by blast
  have pl: "plain_lines False (py_split s [NL])" using assms by (simp add: plain_critique_def)
  from plain_lines_agree[OF nl _ pl, of "[]" "[]" "[]"] obtain c' rs' ss' where
    "foldl app_step ([], []) (py_split s [NL]) = (c', rs')"
    "foldl reviewer_step ([], [], []) (py_split s [NL]) = (c', rs', ss')"
    "text_loop ([], []) (py_split s [NL]) = Inr (c', rs')" by auto
  then show ?thesis
    by (simp add: parse_review_response_def reviewer_parse_review_response_def reviewer_loop_def
        parse_text_response_def)
qed

lemmas plain_defs = plain_critique_def plain_header_def plain_issue_def

theorem three_parsers_agree_on_plain_input_witness:
  "plain_critique
     [12304, 35373, 23450, 12398, 30683, 30462, 12305, 10,
      45, 32, 32681, 29238, 65306, 27515, 20129, 24460, 12395, 30331, 22580, 8594,
      30683, 30462, 12434, 21066, 38500, 10,
      12304, 12522, 12450, 12522, 12486, 12451, 12305, 10,
      45, 32, 24944, 35613, 26009, 65306, 39640, 12377, 12366, 12427, 10]
   \<and> reviewer_parse_review_response
     [12304, 35373, 23450, 12398, 30683, 30462, 12305, 10,
      45, 32, 32681, 29238, 65306, 27515, 20129, 24460, 12395, 30331, 22580, 8594,
      30683, 30462, 12434, 21066, 38500, 10,
      12304, 12522, 12450, 12522, 12486, 12451, 12305, 10,
      45, 32, 24944, 35613, 26009, 65306, 39640, 12377, 12366, 12427, 10]
     = [\<lparr>category = [35373, 23450, 12398, 30683, 30462], location = [32681, 29238],
         issue = [27515, 20129, 24460, 12395, 30331, 22580],
         suggestion = [30683, 30462, 12434, 21066, 38500]\<rparr>,
        \<lparr>category = [12522, 12450, 12522, 12486, 12451], location = [24944, 35613, 26009],
         issue = [39640, 12377, 12366, 12427], suggestion = []\<rparr>]
   \<and> parse_text_response
     [12304, 35373, 23450, 12398, 30683, 30462, 12305, 10,
      45, 32, 32681, 29238, 65306, 27515, 20129, 24460, 12395, 30331, 22580, 8594,
      30683, 30462, 12434, 21066, 38500, 10,
      12304, 12522, 12450, 12522, 12486, 12451, 12305, 10,
      45, 32, 24944, 35613, 26009, 65306, 39640, 12377, 12366, 12427, 10]
     = Inr [\<lparr>category = [35373, 23450, 12398, 30683, 30462], location = [32681, 29238],
         issue = [27515, 20129, 24460, 12395, 30331, 22580],
         suggestion = [30683, 30462, 12434, 21066, 38500]\<rparr>,
        \<lparr>category = [12522, 12450, 12522, 12486, 12451], location = [24944, 35613, 26009],
         issue = [39640, 12377, 12366, 12427], suggestion = []\<rparr>]"
proof -
  have p: "plain_critique
     [12304, 35373, 23450, 12398, 30683, 30462, 12305, 10,
      45, 32, 32681, 29238, 65306, 27515, 20129, 24460, 12395, 30331, 22580, 8594,
      30683, 30462, 12434, 21066, 38500, 10,
      12304, 12522, 12450, 12522, 12486, 12451, 12305, 10,
      45, 32, 24944, 35613, 26009, 65306, 39640, 12377, 12366, 12427, 10]"
    by (simp add: plain_defs py_split_def NL_def LBRACKET_def RBRACKET_def COLON_def ARROW_def
        DASH_def)
  show ?thesis
    using p three_parsers_agree_on_plain_input[OF p]
    by (simp add: parse_review_response_def py_split_def app_step_def is_header_def endswith_def
      inner_def match_issue_def issue_tail_def at_dollar_def issue_of_match_def
      suggestion_of_def strip_def lstrip_def rstrip_def isspace_def NL_def LBRACKET_def
      RBRACKET_def COLON_def ARROW_def DASH_def)
qed

text \<open>
  C10 as stated fails. On an issue line before any header \<^verbatim>\<open>_parse_text_response\<close> returns
  a record with an empty category and the other two return none; on a header line with
  text after the closing bracket \<^verbatim>\<open>_parse_review_response\<close> of \<^verbatim>\<open>utils/reviewer.py\<close>
  returns a record and \<^verbatim>\<open>parse_review_response\<close> of \<^verbatim>\<open>app.py\<close> none.
\<close>

theorem three_parsers_differ_counterexample:
  "parse_review_response [45, 32, 97, 65306, 98] = []
   \<and> reviewer_parse_review_response [45, 32, 97, 65306, 98] = []
   \<and> parse_text_response [45, 32, 97, 65306, 98]
       = Inr [\<lparr>category = [], location = [97], issue = [98], suggestion = []\<rparr>]
   \<and> parse_review_response [12304, 65, 12305, 120, 10, 45, 32, 97, 65306, 98] = []
   \<and> reviewer_parse_review_response [12304, 65, 12305, 120, 10, 45, 32, 97, 65306, 98]
       = [\<lparr>category = [65], location = [97], issue = [98], suggestion = []\<rparr>]"
  by (simp add: parse_defs contains_single)

section \<open>The text a record is made of\<close>

lemma lazy_dot_plus_NoneD:
  "lazy_dot_plus k acc (p @ q) = None \<Longrightarrow> p \<noteq> [] \<Longrightarrow> NL \<notin> set p \<Longrightarrow> k (acc @ p) q = None"
proof (induction p arbitrary: acc)
  case Nil
  then show ?case by simp
next
  case (Cons c ps)
  have c: "c \<noteq> NL" using Cons.prems(3) by auto
  have a: "k (acc @ [c]) (ps @ q) = None" and b: "lazy_dot_plus k (acc @ [c]) (ps @ q) = None"
    using Cons.prems(1) c by (auto split: option.splits)
  show ?case
  proof (cases "ps = []")
    case True
    then show ?thesis using a by simp
  next
    case False
    have "k ((acc @ [c]) @ ps) q = None"
      using Cons.IH[OF b False] Cons.prems(3) by simp
    then show ?thesis by simp
  qed
qed

lemma tail_search_Some:
  assumes fin: "fin []" and "rest \<noteq> []" "NL \<notin> set rest"
  shows "lazy_dot_plus (issue_tail fin g) [] rest \<noteq> None"
proof
  assume "lazy_dot_plus (issue_tail fin g) [] rest = None"
  then have "lazy_dot_plus (issue_tail fin g) [] (rest @ []) = None" by simp
  from lazy_dot_plus_NoneD[OF this assms(2,3)]
  have "issue_tail fin g rest [] = None" by simp
  then show False using issue_tail_no_arrow_end[where fin = fin, OF fin] by simp
qed

lemma issue_tail_cases:
  assumes fin: "\<And>r. r \<noteq> [] \<Longrightarrow> NL \<notin> set r \<Longrightarrow> \<not> fin r"
    and "issue_tail fin g1 g2 r = Some m" "NL \<notin> set r"
  shows "(r = [] \<and> m = (g1, g2, None)) \<or> (\<exists>g. r = ARROW # g \<and> g \<noteq> [] \<and> m = (g1, g2, Some g))"
proof (cases r)
  case Nil
  then show ?thesis using assms(2) by (auto simp: issue_tail_def split: if_splits)
next
  case (Cons c r')
  have nf: "\<not> fin r" using fin[of r] Cons assms(3) by blast
  let ?k = "\<lambda>g3 r''. if fin r'' then Some (g1, g2, Some g3) else None"
  have c: "c = ARROW" and l: "lazy_dot_plus ?k [] r' = Some m"
    using assms(2) nf Cons by (auto simp: issue_tail_def split: if_splits option.splits)
  from lazy_dot_plus_SomeD[OF l] obtain p q where pq: "p \<noteq> []" "r' = p @ q" "?k ([] @ p) q = Some m"
    by blast
  then have fq: "fin q" and m: "m = (g1, g2, Some p)" by (auto split: if_splits)
  have "NL \<notin> set q" using assms(3) Cons pq(2) by auto
  then have "q = []" using fin[of q] fq by blast
  then show ?thesis using Cons c pq m by simp
qed

lemma in_tl_after_prefix: "p = p' @ x # t \<Longrightarrow> p' \<noteq> [] \<Longrightarrow> x \<in> set (tl p)"
  by (cases p') auto

lemma in_tl_butlast_between:
  "p = p' @ x # t \<Longrightarrow> p' \<noteq> [] \<Longrightarrow> t \<noteq> [] \<Longrightarrow> x \<in> set (tl (butlast p))"
  by (cases p') (auto simp: butlast_append)

lemma tl_decomp: "x \<in> set (tl p) \<Longrightarrow> \<exists>y a b. p = (y # a) @ x # b"
proof -
  assume a: "x \<in> set (tl p)"
  then obtain u v where "tl p = u @ x # v" by (auto simp: in_set_conv_decomp)
  moreover have "p \<noteq> []" using a by auto
  ultimately have "p = (hd p # u) @ x # v" by (cases p) auto
  then show ?thesis by blast
qed

lemma tl_butlast_decomp:
  "x \<in> set (tl (butlast p)) \<Longrightarrow> \<exists>y a b. p = (y # a) @ x # b \<and> b \<noteq> []"
proof -
  assume a: "x \<in> set (tl (butlast p))"
  from tl_decomp[OF a] obtain y u v where uv: "butlast p = (y # u) @ x # v" by blast
  then have "p \<noteq> []" by auto
  then have "p = butlast p @ [last p]" by simp
  then have "p = (y # u) @ x # (v @ [last p])" using uv by (metis append.assoc append_Cons)
  then show ?thesis by blast
qed

lemma match_issue_partsD:
  assumes fin: "fin []" "\<And>r. r \<noteq> [] \<Longrightarrow> NL \<notin> set r \<Longrightarrow> \<not> fin r"
    and mt: "match_issue fin line = Some (g1, g2, g3)" and nl: "NL \<notin> set line"
  shows "issue_line_parts line g1 g2 g3"
proof -
  let ?m = "(g1, g2, g3)"
  let ?k1 = "\<lambda>g1 r. case r of [] \<Rightarrow> None
                | c # r' \<Rightarrow> if c = COLON then lazy_dot_plus (issue_tail fin g1) [] r' else None"
  have d: "startswith line DASH" and l: "lazy_dot_plus ?k1 [] (drop 2 line) = Some ?m"
    using mt by (auto simp: match_issue_def split: if_splits)
  have line: "line = DASH @ drop 2 line" using dash_line[OF d] .
  from lazy_dot_plus_SomeD[OF l] obtain p q where pq: "p \<noteq> []" "drop 2 line = p @ q"
    "?k1 ([] @ p) q = Some ?m"
    and min1: "\<And>p' q'. p' \<noteq> [] \<Longrightarrow> p' @ q' = drop 2 line \<Longrightarrow> length p' < length p
                 \<Longrightarrow> ?k1 ([] @ p') q' = None"
    by blast
  from pq(3) obtain r' where q: "q = COLON # r'"
    and l2: "lazy_dot_plus (issue_tail fin p) [] r' = Some ?m"
    by (auto split: list.splits if_splits)
  have nlb: "NL \<notin> set (drop 2 line)" using nl by (metis in_set_dropD)
  then have nlp: "NL \<notin> set p" and nlr: "NL \<notin> set r'" using pq(2) q by auto
  have c1: "COLON \<notin> set (tl p)"
  proof
    assume "COLON \<in> set (tl p)"
    from tl_decomp[OF this] obtain y a b where p: "p = (y # a) @ COLON # b" by blast
    have "(y # a) @ (COLON # b @ q) = drop 2 line" using pq(2) p by simp
    moreover have "length (y # a) < length p" by (subst p) simp
    ultimately have "?k1 ([] @ (y # a)) (COLON # b @ q) = None" using min1 by blast
    then have n: "lazy_dot_plus (issue_tail fin (y # a)) [] (b @ q) = None" by simp
    have "b @ q \<noteq> []" using q by simp
    moreover have "NL \<notin> set (b @ q)" using nlp nlb p pq(2) by auto
    ultimately show False using tail_search_Some[where fin = fin, OF fin(1)] n by blast
  qed
  from lazy_dot_plus_SomeD[OF l2] obtain p2 q2 where p2: "p2 \<noteq> []" "r' = p2 @ q2"
    "issue_tail fin p ([] @ p2) q2 = Some ?m"
    and min2: "\<And>p' q'. p' \<noteq> [] \<Longrightarrow> p' @ q' = r' \<Longrightarrow> length p' < length p2
                 \<Longrightarrow> issue_tail fin p ([] @ p') q' = None"
    by blast
  have nlq2: "NL \<notin> set q2" and nlp2: "NL \<notin> set p2" using nlr p2(2) by auto
  have it: "issue_tail fin p p2 q2 = Some ?m" using p2(3) by simp
  have body: "line = DASH @ p @ COLON # p2 @ q2" using line pq(2) q p2(2) by simp
  from issue_tail_cases[where fin = fin, OF fin(2) it nlq2]
  show ?thesis
  proof
    assume a: "q2 = [] \<and> ?m = (p, p2, None)"
    have "ARROW \<notin> set (tl (butlast p2))"
    proof
      assume "ARROW \<in> set (tl (butlast p2))"
      from tl_butlast_decomp[OF this] obtain y u b where
        p: "p2 = (y # u) @ ARROW # b" "b \<noteq> []" by blast
      have "(y # u) @ (ARROW # b) = r'" using p2(2) a p(1) by simp
      moreover have "length (y # u) < length p2" by (subst p(1)) simp
      ultimately have "issue_tail fin p ([] @ (y # u)) (ARROW # b) = None" using min2 by blast
      moreover have "NL \<notin> set b" using nlp2 p(1) by auto
      ultimately show False
        using issue_tail_arrow[where fin = fin, OF fin p(2)] by simp
    qed
    then show ?thesis using a body pq(1) p2(1) c1 by (simp add: issue_line_parts_def)
  next
    assume "\<exists>g. q2 = ARROW # g \<and> g \<noteq> [] \<and> ?m = (p, p2, Some g)"
    then obtain g where g: "q2 = ARROW # g" "g \<noteq> []" "?m = (p, p2, Some g)" by blast
    have "ARROW \<notin> set (tl p2)"
    proof
      assume "ARROW \<in> set (tl p2)"
      from tl_decomp[OF this] obtain y u b where p: "p2 = (y # u) @ ARROW # b" by blast
      have "(y # u) @ (ARROW # b @ q2) = r'" using p2(2) p by simp
      moreover have "length (y # u) < length p2" by (subst p) simp
      ultimately have "issue_tail fin p ([] @ (y # u)) (ARROW # b @ q2) = None"
        using min2 by blast
      moreover have "b @ q2 \<noteq> []" using g(1) by simp
      moreover have "NL \<notin> set (b @ q2)" using nlp2 nlq2 p by auto
      ultimately show False
        using issue_tail_arrow[where fin = fin and sug = "b @ q2", OF fin] by simp
    qed
    then show ?thesis using g body pq(1) p2(1) c1 by (simp add: issue_line_parts_def)
  qed
qed

lemma match_issue_found_tl:
  assumes "loc \<noteq> []" "COLON \<notin> set (tl loc)" "NL \<notin> set loc"
    and "lazy_dot_plus (issue_tail fin loc) [] rest = Some m"
  shows "match_issue fin (DASH @ loc @ COLON # rest) = Some m"
proof -
  let ?k1 = "\<lambda>g1 r. case r of [] \<Rightarrow> None
                | c # r' \<Rightarrow> if c = COLON then lazy_dot_plus (issue_tail fin g1) [] r' else None"
  have "lazy_dot_plus ?k1 [] (loc @ COLON # rest) = Some m"
  proof (rule lazy_dot_plus_first[OF assms(1,3)])
    show "?k1 ([] @ loc) (COLON # rest) = Some m" using assms(4) by simp
    show "?k1 ([] @ p') q' = None"
      if h: "p' \<noteq> []" "p' @ q' = loc @ COLON # rest" "length p' < length loc" for p' q'
    proof -
      from shorter_split[OF h(2,3)] obtain x t where xt: "loc = p' @ x # t" "q' = x # t @ COLON # rest"
        by blast
      then have "x \<noteq> COLON" using assms(2) in_tl_after_prefix[OF xt(1) h(1)] by auto
      then show ?thesis using xt(2) by simp
    qed
  qed
  then show ?thesis by (simp add: match_issue_def DASH_def)
qed

lemma tail_search_whole:
  assumes fin: "fin []" "\<And>r. r \<noteq> [] \<Longrightarrow> NL \<notin> set r \<Longrightarrow> \<not> fin r"
    and "rest \<noteq> []" "NL \<notin> set rest" "ARROW \<notin> set (tl (butlast rest))"
  shows "lazy_dot_plus (issue_tail fin loc) [] rest = Some (loc, rest, None)"
proof -
  have "lazy_dot_plus (issue_tail fin loc) [] (rest @ []) = Some (loc, rest, None)"
  proof (rule lazy_dot_plus_first[OF assms(3,4)])
    show "issue_tail fin loc ([] @ rest) [] = Some (loc, rest, None)"
      using issue_tail_no_arrow_end[where fin = fin, OF fin(1)] by simp
    show "issue_tail fin loc ([] @ p') q' = None"
      if h: "p' \<noteq> []" "p' @ q' = rest @ []" "length p' < length rest" for p' q'
    proof -
      from shorter_split[OF h(2,3)] obtain x t where xt: "rest = p' @ x # t" "q' = x # t @ []"
        by blast
      have nlq: "NL \<notin> set (x # t)" using assms(4) xt(1) by auto
      show ?thesis
      proof (cases "x = ARROW")
        case False
        then show ?thesis using issue_tail_mid[where fin = fin, OF fin(2) False nlq] xt(2) by simp
      next
        case True
        have "t = []"
        proof (rule ccontr)
          assume "t \<noteq> []"
          from in_tl_butlast_between[OF xt(1) h(1) this] show False using True assms(5) by simp
        qed
        moreover have "\<not> fin [ARROW]" using fin(2)[of "[ARROW]"] nlq True by simp
        ultimately show ?thesis using xt(2) True by (simp add: issue_tail_def)
      qed
    qed
  qed
  then show ?thesis by simp
qed

lemma tail_search_arrow_tl:
  assumes fin: "fin []" "\<And>r. r \<noteq> [] \<Longrightarrow> NL \<notin> set r \<Longrightarrow> \<not> fin r"
    and "iss \<noteq> []" "ARROW \<notin> set (tl iss)" "sug \<noteq> []" "NL \<notin> set (iss @ ARROW # sug)"
  shows "lazy_dot_plus (issue_tail fin loc) [] (iss @ ARROW # sug) = Some (loc, iss, Some sug)"
proof (rule lazy_dot_plus_first[OF assms(3)])
  show "NL \<notin> set iss" using assms(6) by simp
  have "NL \<notin> set sug" using assms(6) by simp
  then show "issue_tail fin loc ([] @ iss) (ARROW # sug) = Some (loc, iss, Some sug)"
    using issue_tail_arrow[where fin = fin, OF fin assms(5)] by simp
  show "issue_tail fin loc ([] @ p') q' = None"
    if h: "p' \<noteq> []" "p' @ q' = iss @ ARROW # sug" "length p' < length iss" for p' q'
  proof -
    from shorter_split[OF h(2,3)] obtain x t where xt: "iss = p' @ x # t" "q' = x # t @ ARROW # sug"
      by blast
    then have "x \<noteq> ARROW" using assms(4) in_tl_after_prefix[OF xt(1) h(1)] by auto
    moreover have "NL \<notin> set (x # t @ ARROW # sug)" using assms(6) xt(1) by auto
    ultimately show ?thesis using issue_tail_mid[where fin = fin, OF fin(2)] xt(2) by simp
  qed
qed

lemma match_issue_partsI:
  assumes fin: "fin []" "\<And>r. r \<noteq> [] \<Longrightarrow> NL \<notin> set r \<Longrightarrow> \<not> fin r"
    and parts: "issue_line_parts line g1 g2 g3" and nl: "NL \<notin> set line"
  shows "match_issue fin line = Some (g1, g2, g3)"
proof (cases g3)
  case None
  then have p: "g1 \<noteq> []" "COLON \<notin> set (tl g1)" "g2 \<noteq> []" "line = DASH @ g1 @ COLON # g2"
    "ARROW \<notin> set (tl (butlast g2))" using parts by (auto simp: issue_line_parts_def)
  have n: "NL \<notin> set g1" "NL \<notin> set g2" using nl p(4) by auto
  show ?thesis
    using match_issue_found_tl[OF p(1,2) n(1)
            tail_search_whole[where fin = fin, OF fin p(3) n(2) p(5)]] p(4) None
    by simp
next
  case (Some g)
  then have p: "g1 \<noteq> []" "COLON \<notin> set (tl g1)" "g2 \<noteq> []" "g \<noteq> []"
    "line = DASH @ g1 @ COLON # g2 @ ARROW # g" "ARROW \<notin> set (tl g2)"
    using parts by (auto simp: issue_line_parts_def)
  have n: "NL \<notin> set g1" "NL \<notin> set (g2 @ ARROW # g)" using nl p(5) by auto
  show ?thesis
    using match_issue_found_tl[OF p(1,2) n(1)
            tail_search_arrow_tl[where fin = fin, OF fin p(3,6,4) n(2)]] p(5) Some
    by simp
qed

lemma match_issue_parts_iff:
  assumes "NL \<notin> set line"
  shows "match_issue at_dollar line = Some (g1, g2, g3) \<longleftrightarrow> issue_line_parts line g1 g2 g3"
    and "match_issue at_nl_or_dollar line = Some (g1, g2, g3) \<longleftrightarrow> issue_line_parts line g1 g2 g3"
proof -
  show "match_issue at_dollar line = Some (g1, g2, g3) \<longleftrightarrow> issue_line_parts line g1 g2 g3"
    using match_issue_partsD[where fin = at_dollar, OF fin_at_dollar _ assms]
          match_issue_partsI[where fin = at_dollar, OF fin_at_dollar _ assms] by blast
  show "match_issue at_nl_or_dollar line = Some (g1, g2, g3) \<longleftrightarrow> issue_line_parts line g1 g2 g3"
    using match_issue_partsD[where fin = at_nl_or_dollar, OF fin_at_nl_or_dollar _ assms]
          match_issue_partsI[where fin = at_nl_or_dollar, OF fin_at_nl_or_dollar _ assms] by blast
qed

lemma issue_of_match_eq:
  "issue_of_match c (g1, g2, g3)
     = \<lparr>category = c, location = strip g1, issue = strip g2, suggestion = suggestion_of g3\<rparr>"
  by (simp add: issue_of_match_def)

lemma app_fold_match:
  "foldl app_step ([], []) ls = (c, rs) \<Longrightarrow>
   \<forall>r\<in>set rs. \<exists>l\<in>set ls. \<exists>m. match_issue at_dollar l = Some m \<and> r = issue_of_match (category r) m"
proof (induction ls arbitrary: c rs rule: rev_induct)
  case Nil
  then show ?case by simp
next
  case (snoc l ls)
  define P where "P = (\<lambda>ls (r::issue_record).
     \<exists>l\<in>set ls. \<exists>m. match_issue at_dollar l = Some m \<and> r = issue_of_match (category r) m)"
  obtain c0 rs0 where st: "foldl app_step ([], []) ls = (c0, rs0)"
    by (cases "foldl app_step ([], []) ls")
  from snoc.IH[OF st] have ih: "\<forall>r\<in>set rs0. P ls r" unfolding P_def by blast
  have step: "app_step (c0, rs0) l = (c, rs)" using snoc.prems st by simp
  have mono: "P (ls @ [l]) r" if "P ls r" for r using that unfolding P_def by auto
  have old: "\<forall>r\<in>set rs0. P (ls @ [l]) r" using ih mono by blast
  have "\<forall>r\<in>set rs. P (ls @ [l]) r"
  proof (cases rule: app_step_cases[where line = l and c = c0 and rs = rs0])
    case header
    then have "rs = rs0" using step by auto
    then show ?thesis using old by simp
  next
    case (issue m)
    have "issue_of_match c0 m = issue_of_match (category (issue_of_match c0 m)) m"
      by (simp add: issue_of_match_simps)
    moreover have "l \<in> set (ls @ [l])" by simp
    ultimately have new: "P (ls @ [l]) (issue_of_match c0 m)"
      unfolding P_def using issue(3) by blast
    have "rs = rs0 @ [issue_of_match c0 m]" using step issue(4) by auto
    then show ?thesis using old new by simp
  next
    case skip
    then have "rs = rs0" using step by auto
    then show ?thesis using old by simp
  qed
  then show ?case unfolding P_def by blast
qed

lemma reviewer_fold_match:
  "foldl reviewer_step ([], [], []) ls = (c, rs, ss) \<Longrightarrow>
   \<forall>r\<in>set rs. \<exists>l\<in>set ls. \<exists>m. match_issue at_nl_or_dollar l = Some m
                  \<and> r = issue_of_match (category r) m"
proof (induction ls arbitrary: c rs ss rule: rev_induct)
  case Nil
  then show ?case by simp
next
  case (snoc l ls)
  define P where "P = (\<lambda>ls (r::issue_record).
     \<exists>l\<in>set ls. \<exists>m. match_issue at_nl_or_dollar l = Some m \<and> r = issue_of_match (category r) m)"
  obtain c0 rs0 ss0 where st: "foldl reviewer_step ([], [], []) ls = (c0, rs0, ss0)"
    by (cases "foldl reviewer_step ([], [], []) ls") auto
  from snoc.IH[OF st] have ih: "\<forall>r\<in>set rs0. P ls r" unfolding P_def by blast
  have step: "reviewer_step (c0, rs0, ss0) l = (c, rs, ss)" using snoc.prems st by simp
  have mono: "P (ls @ [l]) r" if "P ls r" for r using that unfolding P_def by auto
  have old: "\<forall>r\<in>set rs0. P (ls @ [l]) r" using ih mono by blast
  have "\<forall>r\<in>set rs. P (ls @ [l]) r"
  proof (cases rule: reviewer_step_cases[where line = l and c = c0 and rs = rs0 and ss = ss0])
    case (header g)
    then have "rs = rs0" using step by auto
    then show ?thesis using old by simp
  next
    case (issue m ss1)
    have "issue_of_match c0 m = issue_of_match (category (issue_of_match c0 m)) m"
      by (simp add: issue_of_match_simps)
    moreover have "l \<in> set (ls @ [l])" by simp
    ultimately have new: "P (ls @ [l]) (issue_of_match c0 m)"
      unfolding P_def using issue(3) by blast
    have "rs = rs0 @ [issue_of_match c0 m]" using step issue(4) by auto
    then show ?thesis using old new by simp
  next
    case skip
    then have "rs = rs0" using step by auto
    then show ?thesis using old by simp
  qed
  then show ?case unfolding P_def by blast
qed

lemma record_of_parts:
  assumes "r = issue_of_match (category r) (g1, g2, g3)"
  shows "location r = strip g1 \<and> issue r = strip g2 \<and> suggestion r = suggestion_of g3
         \<and> (issue r = [] \<longleftrightarrow> (\<forall>c\<in>set g2. isspace c))"
proof -
  have "location r = strip g1 \<and> issue r = strip g2 \<and> suggestion r = suggestion_of g3"
    by (subst assms, simp add: issue_of_match_def)+
  then show ?thesis using strip_eq_Nil_iff[of g2] by simp
qed

lemma app_parse_parts:
  assumes "r \<in> set (parse_review_response s)"
  shows "\<exists>l\<in>set (py_split s [NL]). \<exists>g1 g2 g3. issue_line_parts l g1 g2 g3
           \<and> location r = strip g1 \<and> issue r = strip g2 \<and> suggestion r = suggestion_of g3
           \<and> (issue r = [] \<longleftrightarrow> (\<forall>c\<in>set g2. isspace c))"
proof -
  obtain c rs where st: "foldl app_step ([], []) (py_split s [NL]) = (c, rs)"
    by (cases "foldl app_step ([], []) (py_split s [NL])")
  then have "r \<in> set rs" using assms by (simp add: parse_review_response_def)
  with app_fold_match[OF st] obtain l m where
    lm: "l \<in> set (py_split s [NL])" "match_issue at_dollar l = Some m"
        "r = issue_of_match (category r) m" by blast
  obtain g1 g2 g3 where m: "m = (g1, g2, g3)" by (cases m)
  have "issue_line_parts l g1 g2 g3"
    using match_issue_parts_iff(1)[OF py_split_lines_no_NL[OF lm(1)]] lm(2) m by blast
  then show ?thesis using record_of_parts[of r g1 g2 g3] lm(1,3) m by blast
qed

lemma reviewer_parse_parts:
  assumes "r \<in> set (reviewer_parse_review_response s)"
  shows "\<exists>l\<in>set (py_split s [NL]). \<exists>g1 g2 g3. issue_line_parts l g1 g2 g3
           \<and> location r = strip g1 \<and> issue r = strip g2 \<and> suggestion r = suggestion_of g3
           \<and> (issue r = [] \<longleftrightarrow> (\<forall>c\<in>set g2. isspace c))"
proof -
  obtain c rs ss where st: "foldl reviewer_step ([], [], []) (py_split s [NL]) = (c, rs, ss)"
    by (cases "foldl reviewer_step ([], [], []) (py_split s [NL])") auto
  then have "r \<in> set rs" using assms
    by (simp add: reviewer_parse_review_response_def reviewer_loop_def)
  with reviewer_fold_match[OF st] obtain l m where
    lm: "l \<in> set (py_split s [NL])" "match_issue at_nl_or_dollar l = Some m"
        "r = issue_of_match (category r) m" by blast
  obtain g1 g2 g3 where m: "m = (g1, g2, g3)" by (cases m)
  have "issue_line_parts l g1 g2 g3"
    using match_issue_parts_iff(2)[OF py_split_lines_no_NL[OF lm(1)]] lm(2) m by blast
  then show ?thesis using record_of_parts[of r g1 g2 g3] lm(1,3) m by blast
qed

lemma parts_start_dash: "issue_line_parts l g1 g2 g3 \<Longrightarrow> startswith l DASH"
  by (cases g3) (auto simp: issue_line_parts_def DASH_def)

lemma step_emits_parts:
  assumes "NL \<notin> set l" "c \<noteq> []" "issue_line_parts l g1 g2 g3"
  shows "app_step (c, rs) l
           = (c, rs @ [\<lparr>category = c, location = strip g1, issue = strip g2,
                         suggestion = suggestion_of g3\<rparr>])"
    and "fst (snd (reviewer_step (c, rs, ss) l))
           = rs @ [\<lparr>category = c, location = strip g1, issue = strip g2,
                     suggestion = suggestion_of g3\<rparr>]"
proof -
  have d: "startswith l DASH" using parts_start_dash[OF assms(3)] .
  then have nb: "\<not> startswith l [LBRACKET]" using header_not_dash by blast
  from not_bracket_not_header[OF nb] have nh: "\<not> is_header l" "match_category l = None" by auto
  have a: "match_issue at_dollar l = Some (g1, g2, g3)"
    using match_issue_parts_iff(1)[OF assms(1)] assms(3) by blast
  have b: "match_issue at_nl_or_dollar l = Some (g1, g2, g3)"
    using match_issue_parts_iff(2)[OF assms(1)] assms(3) by blast
  show "app_step (c, rs) l
           = (c, rs @ [\<lparr>category = c, location = strip g1, issue = strip g2,
                         suggestion = suggestion_of g3\<rparr>])"
    using nh(1) a assms(2) by (simp add: app_step_other issue_of_match_eq)
  show "fst (snd (reviewer_step (c, rs, ss) l))
           = rs @ [\<lparr>category = c, location = strip g1, issue = strip g2,
                     suggestion = suggestion_of g3\<rparr>]"
    using reviewer_step_other[OF nh(2), of c rs ss] b assms(2) by (simp add: issue_of_match_eq)
qed

lemma step_adds_parts:
  assumes "NL \<notin> set l"
  shows "snd (app_step (c, rs) l) = rs
          \<or> (\<exists>g1 g2 g3. issue_line_parts l g1 g2 g3
               \<and> snd (app_step (c, rs) l)
                    = rs @ [\<lparr>category = c, location = strip g1, issue = strip g2,
                              suggestion = suggestion_of g3\<rparr>])"
    and "fst (snd (reviewer_step (c, rs, ss) l)) = rs
          \<or> (\<exists>g1 g2 g3. issue_line_parts l g1 g2 g3
               \<and> fst (snd (reviewer_step (c, rs, ss) l))
                    = rs @ [\<lparr>category = c, location = strip g1, issue = strip g2,
                              suggestion = suggestion_of g3\<rparr>])"
proof -
  show "snd (app_step (c, rs) l) = rs
          \<or> (\<exists>g1 g2 g3. issue_line_parts l g1 g2 g3
               \<and> snd (app_step (c, rs) l)
                    = rs @ [\<lparr>category = c, location = strip g1, issue = strip g2,
                              suggestion = suggestion_of g3\<rparr>])"
  proof (cases rule: app_step_cases[where line = l and c = c and rs = rs])
    case header
    then show ?thesis by simp
  next
    case (issue m)
    obtain g1 g2 g3 where m: "m = (g1, g2, g3)" by (cases m)
    have "issue_line_parts l g1 g2 g3"
      using match_issue_parts_iff(1)[OF assms] issue(3) m by blast
    then show ?thesis using issue(4) m by (auto simp: issue_of_match_eq)
  next
    case skip
    then show ?thesis by simp
  qed
  show "fst (snd (reviewer_step (c, rs, ss) l)) = rs
          \<or> (\<exists>g1 g2 g3. issue_line_parts l g1 g2 g3
               \<and> fst (snd (reviewer_step (c, rs, ss) l))
                    = rs @ [\<lparr>category = c, location = strip g1, issue = strip g2,
                              suggestion = suggestion_of g3\<rparr>])"
  proof (cases rule: reviewer_step_cases[where line = l and c = c and rs = rs and ss = ss])
    case (header g)
    then show ?thesis by simp
  next
    case (issue m ss1)
    obtain g1 g2 g3 where m: "m = (g1, g2, g3)" by (cases m)
    have "issue_line_parts l g1 g2 g3"
      using match_issue_parts_iff(2)[OF assms] issue(3) m by blast
    then show ?thesis using issue(4) m by (auto simp: issue_of_match_eq)
  next
    case skip
    then show ?thesis by simp
  qed
qed

text \<open>
  C6, as the code has it. Every record comes from one line of the input, cut as
  \<open>issue_line_parts\<close> says: its location, issue and suggestion are the trimmed \<open>g1\<close>, \<open>g2\<close> and
  \<open>g3\<close> of that line, where \<open>g2\<close> is the non-empty text matched after the colon. So the issue
  is empty exactly when that text consists of white space only. The cut is the one the
  pattern makes, and no other: on a line without a line feed the match returns
  \<open>(h1, h2, h3)\<close> exactly when these are the parts of the line. Under a non-empty category
  a line with such parts adds the record made of them, also when \<open>h2\<close> is white space only,
  and a line adds no other record. This holds for both \<^verbatim>\<open>app.py\<close> and \<^verbatim>\<open>utils/reviewer.py\<close>.
\<close>

theorem issue_is_trimmed_match_text:
  "(\<forall>r\<in>set (parse_review_response s).
      \<exists>l\<in>set (py_split s [NL]). \<exists>g1 g2 g3. issue_line_parts l g1 g2 g3
         \<and> location r = strip g1 \<and> issue r = strip g2 \<and> suggestion r = suggestion_of g3
         \<and> (issue r = [] \<longleftrightarrow> (\<forall>c\<in>set g2. isspace c)))
   \<and> (\<forall>r\<in>set (reviewer_parse_review_response s).
      \<exists>l\<in>set (py_split s [NL]). \<exists>g1 g2 g3. issue_line_parts l g1 g2 g3
         \<and> location r = strip g1 \<and> issue r = strip g2 \<and> suggestion r = suggestion_of g3
         \<and> (issue r = [] \<longleftrightarrow> (\<forall>c\<in>set g2. isspace c)))
   \<and> (NL \<notin> set line \<longrightarrow>
        (match_issue at_dollar line = Some (h1, h2, h3) \<longleftrightarrow> issue_line_parts line h1 h2 h3)
        \<and> (match_issue at_nl_or_dollar line = Some (h1, h2, h3)
             \<longleftrightarrow> issue_line_parts line h1 h2 h3))
   \<and> (NL \<notin> set line \<and> c \<noteq> [] \<and> issue_line_parts line h1 h2 h3 \<longrightarrow>
        app_step (c, rs) line
          = (c, rs @ [\<lparr>category = c, location = strip h1, issue = strip h2,
                        suggestion = suggestion_of h3\<rparr>])
        \<and> fst (snd (reviewer_step (c, rs, ss) line))
          = rs @ [\<lparr>category = c, location = strip h1, issue = strip h2,
                    suggestion = suggestion_of h3\<rparr>])
   \<and> (NL \<notin> set line \<longrightarrow>
        (snd (app_step (c, rs) line) = rs
          \<or> (\<exists>g1 g2 g3. issue_line_parts line g1 g2 g3
               \<and> snd (app_step (c, rs) line)
                    = rs @ [\<lparr>category = c, location = strip g1, issue = strip g2,
                              suggestion = suggestion_of g3\<rparr>]))
        \<and> (fst (snd (reviewer_step (c, rs, ss) line)) = rs
          \<or> (\<exists>g1 g2 g3. issue_line_parts line g1 g2 g3
               \<and> fst (snd (reviewer_step (c, rs, ss) line))
                    = rs @ [\<lparr>category = c, location = strip g1, issue = strip g2,
                              suggestion = suggestion_of g3\<rparr>])))"
proof (intro conjI)
  show "\<forall>r\<in>set (parse_review_response s).
      \<exists>l\<in>set (py_split s [NL]). \<exists>g1 g2 g3. issue_line_parts l g1 g2 g3
         \<and> location r = strip g1 \<and> issue r = strip g2 \<and> suggestion r = suggestion_of g3
         \<and> (issue r = [] \<longleftrightarrow> (\<forall>c\<in>set g2. isspace c))"
    using app_parse_parts by blast
  show "\<forall>r\<in>set (reviewer_parse_review_response s).
      \<exists>l\<in>set (py_split s [NL]). \<exists>g1 g2 g3. issue_line_parts l g1 g2 g3
         \<and> location r = strip g1 \<and> issue r = strip g2 \<and> suggestion r = suggestion_of g3
         \<and> (issue r = [] \<longleftrightarrow> (\<forall>c\<in>set g2. isspace c))"
    using reviewer_parse_parts by blast
  show "NL \<notin> set line \<longrightarrow>
        (match_issue at_dollar line = Some (h1, h2, h3) \<longleftrightarrow> issue_line_parts line h1 h2 h3)
        \<and> (match_issue at_nl_or_dollar line = Some (h1, h2, h3)
             \<longleftrightarrow> issue_line_parts line h1 h2 h3)"
    using match_issue_parts_iff by blast
  show "NL \<notin> set line \<and> c \<noteq> [] \<and> issue_line_parts line h1 h2 h3 \<longrightarrow>
        app_step (c, rs) line
          = (c, rs @ [\<lparr>category = c, location = strip h1, issue = strip h2,
                        suggestion = suggestion_of h3\<rparr>])
        \<and> fst (snd (reviewer_step (c, rs, ss) line))
          = rs @ [\<lparr>category = c, location = strip h1, issue = strip h2,
                    suggestion = suggestion_of h3\<rparr>]"
    using step_emits_parts by blast
  show "NL \<notin> set line \<longrightarrow>
        (snd (app_step (c, rs) line) = rs
          \<or> (\<exists>g1 g2 g3. issue_line_parts line g1 g2 g3
               \<and> snd (app_step (c, rs) line)
                    = rs @ [\<lparr>category = c, location = strip g1, issue = strip g2,
                              suggestion = suggestion_of g3\<rparr>]))
        \<and> (fst (snd (reviewer_step (c, rs, ss) line)) = rs
          \<or> (\<exists>g1 g2 g3. issue_line_parts line g1 g2 g3
               \<and> fst (snd (reviewer_step (c, rs, ss) line))
                    = rs @ [\<lparr>category = c, location = strip g1, issue = strip g2,
                              suggestion = suggestion_of g3\<rparr>]))"
    using step_adds_parts by blast
qed

theorem issue_is_trimmed_match_text_witness:
  "parse_review_response [12304, 65, 12305, 10, 45, 32, 120, 65306, 32, 121, 32]
     = [\<lparr>category = [65], location = [120], issue = [121], suggestion = []\<rparr>]
   \<and> reviewer_parse_review_response [12304, 65, 12305, 10, 45, 32, 120, 65306, 32, 121, 32]
     = [\<lparr>category = [65], location = [120], issue = [121], suggestion = []\<rparr>]
   \<and> py_split [12304, 65, 12305, 10, 45, 32, 120, 65306, 32, 121, 32] [NL]
       = [[12304, 65, 12305], [45, 32, 120, 65306, 32, 121, 32]]
   \<and> NL \<notin> set [45, 32, 120, 65306, 32, 121, 32]
   \<and> issue_line_parts [45, 32, 120, 65306, 32, 121, 32] [120] [32, 121, 32] None
   \<and> match_issue at_dollar [45, 32, 120, 65306, 32, 121, 32] = Some ([120], [32, 121, 32], None)
   \<and> strip [32, 121, 32] = [121]
   \<and> app_step ([65], []) [45, 32, 120, 65306, 32, 121, 32]
       = ([65], [\<lparr>category = [65], location = [120], issue = [121], suggestion = []\<rparr>])
   \<and> NL \<notin> set [45, 32, 120, 65306, 32]
   \<and> issue_line_parts [45, 32, 120, 65306, 32] [120] [32] None
   \<and> app_step ([65], []) [45, 32, 120, 65306, 32]
       = ([65], [\<lparr>category = [65], location = [120], issue = [], suggestion = []\<rparr>])"
  using issue_is_trimmed_match_text
          [of "[12304, 65, 12305, 10, 45, 32, 120, 65306, 32, 121, 32]"
              "[45, 32, 120, 65306, 32, 121, 32]" "[120]" "[32, 121, 32]" None "[65]" "[]" "[]"]
        issue_is_trimmed_match_text
          [of "[12304, 65, 12305, 10, 45, 32, 120, 65306, 32, 121, 32]"
              "[45, 32, 120, 65306, 32]" "[120]" "[32]" None "[65]" "[]" "[]"]
  by (simp add: parse_defs issue_line_parts_def)

text \<open>
  C6 as stated fails on an issue line whose text after the colon is one space: both
  parsers return a record with an empty issue.
\<close>

theorem issue_nonempty_counterexample:
  "parse_review_response [12304, 65, 12305, 10, 45, 32, 120, 65306, 32]
     = [\<lparr>category = [65], location = [120], issue = [], suggestion = []\<rparr>]
   \<and> reviewer_parse_review_response [12304, 65, 12305, 10, 45, 32, 120, 65306, 32]
     = [\<lparr>category = [65], location = [120], issue = [], suggestion = []\<rparr>]"
  by (simp add: parse_defs)

section \<open>The end-to-end example\<close>

text \<open>
  C3. On the example critique of the specification, two headers each followed by one
  issue line, the second without a suggestion, \<^verbatim>\<open>parse_review_response\<close> returns exactly
  the two records of the specification, in the order of the lines.
\<close>

theorem parse_review_response_example:
  "parse_review_response
     [12304, 35373, 23450, 12398, 30683, 30462, 12305, 10,
      45, 32, 32681, 29238, 65306, 27515, 20129, 24460, 12395, 30331, 22580, 8594,
      30683, 30462, 12434, 21066, 38500, 10,
      12304, 12522, 12450, 12522, 12486, 12451, 12305, 10,
      45, 32, 24944, 35613, 26009, 65306, 39640, 12377, 12366, 12427, 10]
   = [\<lparr>category = [35373, 23450, 12398, 30683, 30462], location = [32681, 29238],
       issue = [27515, 20129, 24460, 12395, 30331, 22580],
       suggestion = [30683, 30462, 12434, 21066, 38500]\<rparr>,
      \<lparr>category = [12522, 12450, 12522, 12486, 12451], location = [24944, 35613, 26009],
       issue = [39640, 12377, 12366, 12427], suggestion = []\<rparr>]"
  by (simp add: parse_review_response_def py_split_def app_step_def is_header_def endswith_def
      inner_def match_issue_def issue_tail_def at_dollar_def issue_of_match_def
      suggestion_of_def strip_def lstrip_def rstrip_def isspace_def NL_def LBRACKET_def
      RBRACKET_def COLON_def ARROW_def DASH_def)

end
